theory Spec2Isabelle
  imports Complex_Main "HOL-Library.Word" "HOL-Library.Numeral_Type"
begin

section \<open>Failures\<close>

text \<open>
  The exceptions the sources throw, as values. \<open>OutOfRange\<close> stands for an unchecked
  read past the end of a \<open>std::vector\<close> or a vector of the field (undefined behaviour
  in the source, which the model reports instead of inventing a value).
\<close>

datatype error = InvalidArgument | RuntimeError | DomainError | OutOfRange

type_synonym 'a res = "error + 'a"

section \<open>Numerical utilities (math.hpp)\<close>

text \<open>
  \<open>std::fmod x y\<close> over the reals: \<open>x - n * y\<close> where \<open>n\<close> is \<open>x / y\<close> with its
  fractional part truncated (rounded towards zero), so the result has the sign of \<open>x\<close>.
\<close>

definition fmod :: "real \<Rightarrow> real \<Rightarrow> real" where
  "fmod x y = x - real_of_int (if 0 \<le> x / y then \<lfloor>x / y\<rfloor> else \<lceil>x / y\<rceil>) * y"

text \<open>
  \<open>toFirstLogBranch\<close>: \<open>{std::real(x), std::fmod(std::imag(x)+pi, 2*pi) - pi}\<close>.
\<close>

definition toFirstLogBranch :: "complex \<Rightarrow> complex" where
  "toFirstLogBranch x = Complex (Re x) (fmod (Im x + pi) (2 * pi) - pi)"

section \<open>Dense blocks: space matrices and space vectors\<close>

text \<open>
  A space matrix is an \<open>Nx \<times> Nx\<close> block and a space vector has \<open>Nx\<close> entries, where
  \<open>Nx = LENGTH('n)\<close> is the number of lattice sites (\<open>nx() = _kappa.rows()\<close>). Entries
  outside the range are zero, so that two blocks are equal exactly when their entries
  are. The element type is \<open>real\<close> for \<open>DMatrix\<close>/\<open>DSparseMatrix\<close> and \<open>complex\<close> for
  \<open>CDMatrix\<close>/\<open>CDSparseMatrix\<close>; dense and sparse storage are not distinguished.
\<close>

typedef (overloaded) ('a, 'n) mat =
  "{f :: nat \<Rightarrow> nat \<Rightarrow> 'a::zero. \<forall>i j. \<not> (i < LENGTH('n::len) \<and> j < LENGTH('n)) \<longrightarrow> f i j = 0}"
  morphisms entry Mat
  by (rule exI [of _ "\<lambda>_ _. 0"]) simp

setup_lifting type_definition_mat

typedef (overloaded) ('a, 'n) vec =
  "{f :: nat \<Rightarrow> 'a::zero. \<forall>i. \<not> i < LENGTH('n::len) \<longrightarrow> f i = 0}"
  morphisms coeff Vec
  by (rule exI [of _ "\<lambda>_. 0"]) simp

setup_lifting type_definition_vec

instantiation mat :: (ring_1, len) ring_1
begin

lift_definition zero_mat :: "('a, 'b) mat" is "\<lambda>_ _. 0"
  by simp

lift_definition one_mat :: "('a, 'b) mat" is "\<lambda>i j. if i = j \<and> i < LENGTH('b) then 1 else 0"
  by auto

lift_definition plus_mat :: "('a, 'b) mat \<Rightarrow> ('a, 'b) mat \<Rightarrow> ('a, 'b) mat"
  is "\<lambda>A B i j. A i j + B i j"
  by simp

lift_definition minus_mat :: "('a, 'b) mat \<Rightarrow> ('a, 'b) mat \<Rightarrow> ('a, 'b) mat"
  is "\<lambda>A B i j. A i j - B i j"
  by simp

lift_definition uminus_mat :: "('a, 'b) mat \<Rightarrow> ('a, 'b) mat"
  is "\<lambda>A i j. - A i j"
  by simp

lift_definition times_mat :: "('a, 'b) mat \<Rightarrow> ('a, 'b) mat \<Rightarrow> ('a, 'b) mat"
  is "\<lambda>A B i j. \<Sum>k<LENGTH('b). A i k * B k j"
  by (auto intro!: sum.neutral)

instance
proof
  fix A B C :: "('a, 'b) mat"
  show "A * B * C = A * (B * C)"
  proof (transfer, intro ext)
    fix A B C :: "nat \<Rightarrow> nat \<Rightarrow> 'a" and i j
    have "(\<Sum>k<LENGTH('b). (\<Sum>m<LENGTH('b). A i m * B m k) * C k j)
        = (\<Sum>k<LENGTH('b). \<Sum>m<LENGTH('b). A i m * (B m k * C k j))"
      by (simp add: sum_distrib_right mult.assoc)
    also have "\<dots> = (\<Sum>m<LENGTH('b). \<Sum>k<LENGTH('b). A i m * (B m k * C k j))"
      by (rule sum.swap)
    also have "\<dots> = (\<Sum>m<LENGTH('b). A i m * (\<Sum>k<LENGTH('b). B m k * C k j))"
      by (simp add: sum_distrib_left)
    finally show "(\<Sum>k<LENGTH('b). (\<Sum>m<LENGTH('b). A i m * B m k) * C k j)
        = (\<Sum>m<LENGTH('b). A i m * (\<Sum>k<LENGTH('b). B m k * C k j))" .
  qed
  show "A + B + C = A + (B + C)"
    by transfer (simp add: add.assoc)
  show "A + B = B + A"
    by transfer (simp add: add.commute)
  show "0 + A = A"
    by transfer simp
  show "- A + A = 0"
    by transfer simp
  show "A - B = A + - B"
    by transfer simp
  show "(A + B) * C = A * C + B * C"
    by transfer (simp add: distrib_right sum.distrib)
  show "A * (B + C) = A * B + A * C"
    by transfer (simp add: distrib_left sum.distrib)
  show "1 * A = A"
  proof (transfer, intro ext)
    fix A :: "nat \<Rightarrow> nat \<Rightarrow> 'a" and i j
    assume A: "\<forall>i j. \<not> (i < LENGTH('b) \<and> j < LENGTH('b)) \<longrightarrow> A i j = 0"
    have "(\<Sum>k<LENGTH('b). (if i = k \<and> i < LENGTH('b) then 1 else 0) * A k j)
        = (\<Sum>k<LENGTH('b). if k = i then A k j else 0)"
      by (rule sum.cong) auto
    also have "\<dots> = A i j"
      using A by (simp add: sum.delta)
    finally show "(\<Sum>k<LENGTH('b). (if i = k \<and> i < LENGTH('b) then 1 else 0) * A k j) = A i j" .
  qed
  show "A * 1 = A"
  proof (transfer, intro ext)
    fix A :: "nat \<Rightarrow> nat \<Rightarrow> 'a" and i j
    assume A: "\<forall>i j. \<not> (i < LENGTH('b) \<and> j < LENGTH('b)) \<longrightarrow> A i j = 0"
    have "(\<Sum>k<LENGTH('b). A i k * (if k = j \<and> k < LENGTH('b) then 1 else 0))
        = (\<Sum>k<LENGTH('b). if k = j then A i k else 0)"
      by (rule sum.cong) auto
    also have "\<dots> = A i j"
      using A by (simp add: sum.delta)
    finally show "(\<Sum>k<LENGTH('b). A i k * (if k = j \<and> k < LENGTH('b) then 1 else 0)) = A i j" .
  qed
  show "(0 :: ('a, 'b) mat) \<noteq> 1"
  proof
    assume "(0 :: ('a, 'b) mat) = 1"
    then have "entry (0 :: ('a, 'b) mat) 0 0 = entry (1 :: ('a, 'b) mat) 0 0" by simp
    then show False by (simp add: zero_mat.rep_eq one_mat.rep_eq)
  qed
qed

end

instantiation vec :: (ab_group_add, len) ab_group_add
begin

lift_definition zero_vec :: "('a, 'b) vec" is "\<lambda>_. 0"
  by simp

lift_definition plus_vec :: "('a, 'b) vec \<Rightarrow> ('a, 'b) vec \<Rightarrow> ('a, 'b) vec"
  is "\<lambda>x y i. x i + y i"
  by simp

lift_definition minus_vec :: "('a, 'b) vec \<Rightarrow> ('a, 'b) vec \<Rightarrow> ('a, 'b) vec"
  is "\<lambda>x y i. x i - y i"
  by simp

lift_definition uminus_vec :: "('a, 'b) vec \<Rightarrow> ('a, 'b) vec"
  is "\<lambda>x i. - x i"
  by simp

instance
proof
  fix x y z :: "('a, 'b) vec"
  show "x + y + z = x + (y + z)" by transfer (simp add: add.assoc)
  show "x + y = y + x" by transfer (simp add: add.commute)
  show "0 + x = x" by transfer simp
  show "- x + x = 0" by transfer simp
  show "x - y = x + - y" by transfer simp
qed

end

text \<open>Matrix times vector, scalar multiples, and the element-wise operations of the sources.\<close>

lift_definition mv :: "('a::ring_1, 'n::len) mat \<Rightarrow> ('a, 'n) vec \<Rightarrow> ('a, 'n) vec"
  is "\<lambda>A x i. \<Sum>k<LENGTH('n). A i k * x k"
  by (auto intro!: sum.neutral)

lift_definition smult :: "'a::ring_1 \<Rightarrow> ('a, 'n::len) mat \<Rightarrow> ('a, 'n) mat"
  is "\<lambda>c A i j. c * A i j"
  by simp

lift_definition vsmult :: "'a::ring_1 \<Rightarrow> ('a, 'n::len) vec \<Rightarrow> ('a, 'n) vec"
  is "\<lambda>c x i. c * x i"
  by simp

text \<open>Conversion of a real matrix to a complex one (implicit in the sources).\<close>

lift_definition cplx :: "(real, 'n::len) mat \<Rightarrow> (complex, 'n) mat"
  is "\<lambda>A i j. complex_of_real (A i j)"
  by simp

text \<open>\<open>blaze::diagonal(f) = x\<close> on a zero matrix, and \<open>blaze::diagonal(A)\<close> as a value.\<close>

lift_definition diagm :: "('a::zero, 'n::len) vec \<Rightarrow> ('a, 'n) mat"
  is "\<lambda>x i j. if i = j then x i else 0"
  by auto

lift_definition diagonal :: "('a::zero, 'n::len) mat \<Rightarrow> ('a, 'n) vec"
  is "\<lambda>A i. A i i"
  by simp

text \<open>An element-wise function of a vector (\<open>blaze::exp\<close>, \<open>blaze::conj\<close>).\<close>

lift_definition vmap :: "('a::zero \<Rightarrow> 'b::zero) \<Rightarrow> ('a, 'n::len) vec \<Rightarrow> ('b, 'n) vec"
  is "\<lambda>f x i. if i < LENGTH('n) then f (x i) else 0"
  by simp

text \<open>
  \<open>blaze::row(T, i) *= d i\<close> for every row \<open>i\<close>, and \<open>blaze::column(T, j) *= d j\<close> for
  every column \<open>j\<close>.
\<close>

lift_definition rowscale :: "('a::ring_1, 'n::len) vec \<Rightarrow> ('a, 'n) mat \<Rightarrow> ('a, 'n) mat"
  is "\<lambda>d A i j. A i j * d i"
  by simp

lift_definition colscale :: "('a::ring_1, 'n::len) vec \<Rightarrow> ('a, 'n) mat \<Rightarrow> ('a, 'n) mat"
  is "\<lambda>d A i j. A i j * d j"
  by simp

section \<open>The linear-algebra backend\<close>

text \<open>
  Modelled from the spec: \<open>invert\<close> (the wrapper around LAPACK's \<open>getrf\<close>/\<open>getri\<close>) is
  not under src/. It replaces a matrix by its inverse; here the inverse is computed in
  exact arithmetic by the adjugate formula, with the determinant expanded along the
  first row. For a singular matrix the backend reports a numerical failure; this model
  returns a matrix of zeros there, and every theorem below that depends on an inverse
  assumes that the block in question is inverted.
\<close>

fun det_raw :: "nat \<Rightarrow> (nat \<Rightarrow> nat \<Rightarrow> 'a::comm_ring_1) \<Rightarrow> 'a" where
  "det_raw 0 A = 1"
| "det_raw (Suc n) A =
     (\<Sum>j<Suc n. (- 1) ^ j * A 0 j * det_raw n (\<lambda>r c. A (Suc r) (if c < j then c else Suc c)))"

definition minor_raw :: "(nat \<Rightarrow> nat \<Rightarrow> 'a) \<Rightarrow> nat \<Rightarrow> nat \<Rightarrow> nat \<Rightarrow> nat \<Rightarrow> 'a" where
  "minor_raw A i j = (\<lambda>r c. A (if r < i then r else Suc r) (if c < j then c else Suc c))"

lift_definition invert :: "('a::field, 'n::len) mat \<Rightarrow> ('a, 'n) mat"
  is "\<lambda>A i j. if i < LENGTH('n) \<and> j < LENGTH('n)
        then (- 1) ^ (i + j) * det_raw (LENGTH('n) - 1) (minor_raw A j i) / det_raw LENGTH('n) A
        else 0"
  by auto

text \<open>
  Modelled from the spec: \<open>blaze::getrf\<close> is not under src/. The spec: LU with partial
  pivoting, \<open>A = P L U\<close> with \<open>L\<close> unit-lower, and \<open>det P = (-1) ^ #{i. pivots[i] \<noteq> i}\<close>.
  Column \<open>k\<close> takes as pivot the first row at or below \<open>k\<close> whose entry is largest in
  modulus; pivot indices count from 0, as \<open>logdet\<close> compares them with the loop index.
  The result is the factorisation stored in place and the pivot indices.
\<close>

definition pivot_row :: "nat \<Rightarrow> nat \<Rightarrow> (nat \<Rightarrow> nat \<Rightarrow> 'a::real_normed_field) \<Rightarrow> nat" where
  "pivot_row n k A = fold (\<lambda>i p. if norm (A p k) < norm (A i k) then i else p) [Suc k..<n] k"

definition getrf_step ::
  "nat \<Rightarrow> nat \<Rightarrow> (nat \<Rightarrow> nat \<Rightarrow> 'a::real_normed_field) \<times> nat list \<Rightarrow> (nat \<Rightarrow> nat \<Rightarrow> 'a) \<times> nat list" where
  "getrf_step n k = (\<lambda>(A, ipiv).
     let p = pivot_row n k A;
         B = (\<lambda>i j. if i = k then A p j else if i = p then A k j else A i j);
         C = (\<lambda>i j. if k < i \<and> i < n
                then (if j = k then B i k / B k k
                      else if k < j then B i j - B i k / B k k * B k j
                      else B i j)
                else B i j)
     in (C, ipiv @ [p]))"

definition getrf :: "('a::real_normed_field, 'n::len) mat \<Rightarrow> (nat \<Rightarrow> nat \<Rightarrow> 'a) \<times> nat list" where
  "getrf A = fold (getrf_step LENGTH('n)) [0..<LENGTH('n)] (entry A, [])"

text \<open>\<open>std::log\<close> of a complex number: the principal branch.\<close>

definition clog :: "complex \<Rightarrow> complex" where
  "clog z = Complex (ln (cmod z)) (Arg z)"

text \<open>
  \<open>logdet\<close> (math.hpp): LU-decompose, add the logarithms of the diagonal of \<open>U\<close>, track
  the sign of the permutation, project to the first branch. A real matrix (\<open>ET = double\<close>)
  is passed as its complex image: the factorisation of the image is the image of the
  factorisation.
\<close>

definition logdet :: "(complex, 'n::len) mat \<Rightarrow> complex" where
  "logdet A =
     (let (lu, ipiv) = getrf A;
          (res, detP) = fold (\<lambda>i (res, detP).
              (res + clog (lu i i), if ipiv ! i \<noteq> i then - detP else detP))
            [0..<LENGTH('n)] (0, 1 :: int)
      in toFirstLogBranch (res + (if detP = 1 then 0 else Complex 0 pi)))"

section \<open>Spacetime vectors and matrices\<close>

text \<open>
  Modelled from the spec: \<open>getNt\<close>, \<open>spacevec\<close>, \<open>spacemat\<close> and \<open>spacetimeCoord\<close> are not
  under src/. The sources reach a spacetime vector only through them, so it is modelled
  as the list of its \<open>Nt\<close> time slices: \<open>spacevec x t\<close> is the slice at time \<open>t\<close>, whose
  entry \<open>i\<close> is the element at \<open>spacetimeCoord(i, t, Nx, Nt)\<close>, and \<open>getNt\<close> is the number
  of slices. A spacetime matrix is modelled by its \<open>Nx \<times> Nx\<close> blocks: \<open>m r c\<close> is
  \<open>spacemat(m, r, c, Nx)\<close>; blocks never assigned are zero.
\<close>

type_synonym ('a, 'n) stvec = "('a, 'n) vec list"

type_synonym ('a, 'n) stmat = "nat \<Rightarrow> nat \<Rightarrow> ('a, 'n) mat"

definition getNt :: "('a::zero, 'n::len) stvec \<Rightarrow> nat" where
  "getNt phi = length phi"

definition spacevec :: "('a::zero, 'n::len) stvec \<Rightarrow> nat \<Rightarrow> ('a, 'n) vec" where
  "spacevec x t = x ! t"

definition spacemat_set ::
  "('a::zero, 'n::len) stmat \<Rightarrow> nat \<Rightarrow> nat \<Rightarrow> ('a, 'n) mat \<Rightarrow> ('a, 'n) stmat" where
  "spacemat_set m r c B = m(r := (m r)(c := B))"

definition spacemat_add ::
  "('a::ring_1, 'n::len) stmat \<Rightarrow> nat \<Rightarrow> nat \<Rightarrow> ('a, 'n) mat \<Rightarrow> ('a, 'n) stmat" where
  "spacemat_add m r c B = spacemat_set m r c (m r c + B)"

text \<open>The product of an \<open>nt \<times> nt\<close> block matrix with a spacetime vector.\<close>

definition stmv :: "nat \<Rightarrow> ('a::ring_1, 'n::len) stmat \<Rightarrow> ('a, 'n) stvec \<Rightarrow> ('a, 'n) stvec" where
  "stmv nt m x = map (\<lambda>r. \<Sum>c<nt. mv (m r c) (spacevec x c)) [0..<nt]"

text \<open>Sequencing of fallible steps, a checked \<open>operator[]\<close>, and a fallible loop.\<close>

definition bindR :: "'a res \<Rightarrow> ('a \<Rightarrow> 'b res) \<Rightarrow> 'b res" where
  "bindR m f = (case m of Inl e \<Rightarrow> Inl e | Inr x \<Rightarrow> f x)"

definition elem :: "'a list \<Rightarrow> nat \<Rightarrow> 'a res" where
  "elem xs i = (if i < length xs then Inr (xs ! i) else Inl OutOfRange)"

fun foldR :: "('b \<Rightarrow> 'a \<Rightarrow> 'a res) \<Rightarrow> 'b list \<Rightarrow> 'a \<Rightarrow> 'a res" where
  "foldR f [] a = Inr a"
| "foldR f (x # xs) a = bindR (f x a) (foldR f xs)"

text \<open>Reading the block \<open>(t, c)\<close> of a spacetime matrix that a fallible function returned.\<close>

definition blockAt :: "('a::zero, 'n::len) stmat res \<Rightarrow> nat \<Rightarrow> nat \<Rightarrow> ('a, 'n) mat res" where
  "blockAt r t c = bindR r (\<lambda>m. Inr (m t c))"

text \<open>\<open>a - b\<close> on \<open>std::size_t\<close>: unsigned 64-bit arithmetic wraps around.\<close>

definition size_sub :: "nat \<Rightarrow> nat \<Rightarrow> nat" where
  "size_sub a b = (a + 2 ^ 64 - b) mod 2 ^ 64"

section \<open>HubbardFermiMatrix (hubbardFermiMatrix.cpp)\<close>

datatype Species = PARTICLE | HOLE

text \<open>
  The parameters and the four lazy caches. An empty \<open>_kinvp\<close>/\<open>_kinvh\<close> (\<open>rows() == 0\<close>)
  and a NaN \<open>_logdetKinvp\<close>/\<open>_logdetKinvh\<close> are \<open>None\<close>. \<open>_sigmaKappa\<close> is a
  \<open>std::int8_t\<close>.
\<close>

record (overloaded) ('n) HubbardFermiMatrix =
  kappa :: "(real, 'n) mat"
  mu :: real
  sigmaKappa :: "8 word"
  kinvp :: "(real, 'n) mat option"
  kinvh :: "(real, 'n) mat option"
  logdetKinvp :: "complex option"
  logdetKinvh :: "complex option"

text \<open>The constructor: the caches start empty.\<close>

definition newHubbardFermiMatrix ::
  "(real, 'n::len) mat \<Rightarrow> real \<Rightarrow> 8 word \<Rightarrow> 'n HubbardFermiMatrix" where
  "newHubbardFermiMatrix kappa0 mu0 sigmaKappa0 =
     \<lparr>kappa = kappa0, mu = mu0, sigmaKappa = sigmaKappa0,
      kinvp = None, kinvh = None, logdetKinvp = None, logdetKinvh = None\<rparr>"

definition K :: "('n::len) HubbardFermiMatrix \<Rightarrow> Species \<Rightarrow> (real, 'n) mat" where
  "K hfm species =
     (if species = PARTICLE
      then smult (1 + mu hfm) 1 - kappa hfm
      else smult (1 - mu hfm) 1 - smult (real_of_int (sint (sigmaKappa hfm))) (kappa hfm))"

text \<open>\<open>Kinv\<close> and \<open>logdetKinv\<close> return their value and the matrix with its caches updated.\<close>

definition Kinv ::
  "('n::len) HubbardFermiMatrix \<Rightarrow> Species \<Rightarrow> (real, 'n) mat \<times> 'n HubbardFermiMatrix" where
  "Kinv hfm species =
     (if species = PARTICLE
      then (case kinvp hfm of
              None \<Rightarrow> (let m = invert (K hfm species) in (m, hfm\<lparr>kinvp := Some m\<rparr>))
            | Some m \<Rightarrow> (m, hfm))
      else (case kinvh hfm of
              None \<Rightarrow> (let m = invert (K hfm species) in (m, hfm\<lparr>kinvh := Some m\<rparr>))
            | Some m \<Rightarrow> (m, hfm)))"

definition logdetKinv ::
  "('n::len) HubbardFermiMatrix \<Rightarrow> Species \<Rightarrow> complex \<times> 'n HubbardFermiMatrix" where
  "logdetKinv hfm species =
     (if species = PARTICLE
      then (case logdetKinvp hfm of
              None \<Rightarrow> (let (m, hfm1) = Kinv hfm species; z = logdet (cplx m)
                       in (z, hfm1\<lparr>logdetKinvp := Some z\<rparr>))
            | Some z \<Rightarrow> (z, hfm))
      else (case logdetKinvh hfm of
              None \<Rightarrow> (let (m, hfm1) = Kinv hfm species; z = logdet (cplx m)
                       in (z, hfm1\<lparr>logdetKinvh := Some z\<rparr>))
            | Some z \<Rightarrow> (z, hfm)))"

text \<open>
  \<open>F\<close>: the diagonal matrix of \<open>exp(\<plusminus>i phi[., t' - 1])\<close>, with \<open>t' - 1\<close> wrapping to
  \<open>NT - 1\<close> at \<open>t' = 0\<close>. The slice read is in range when \<open>tp \<le> NT\<close> and \<open>0 < NT\<close>;
  the callers below guarantee that.
\<close>

definition F ::
  "('n::len) HubbardFermiMatrix \<Rightarrow> nat \<Rightarrow> (complex, 'n) stvec \<Rightarrow> Species \<Rightarrow> bool \<Rightarrow> (complex, 'n) mat" where
  "F hfm tp phi species inv' =
     (let NT = getNt phi;
          tm1 = (if tp = 0 then NT - 1 else tp - 1)
      in if (inv' \<and> species = PARTICLE) \<or> (species = HOLE \<and> \<not> inv')
         then diagm (vmap (\<lambda>z. exp (- \<i> * z)) (spacevec phi tm1))
         else diagm (vmap (\<lambda>z. exp (\<i> * z)) (spacevec phi tm1)))"

text \<open>
  \<open>M\<close>: block \<open>(0,0)\<close> is set to \<open>K\<close>, then block \<open>(0, NT-1)\<close> to \<open>F(0)\<close>, then for
  \<open>tp = 1 .. NT-1\<close> block \<open>(tp, tp-1)\<close> to \<open>-F(tp)\<close> and block \<open>(tp, tp)\<close> to \<open>K\<close>.
  With no time slice the first assignment is out of range.
\<close>

definition M ::
  "('n::len) HubbardFermiMatrix \<Rightarrow> (complex, 'n) stvec \<Rightarrow> Species \<Rightarrow> (complex, 'n) stmat res" where
  "M hfm phi species =
     (let NT = getNt phi in
      if NT = 0 then Inl OutOfRange
      else
        let k = cplx (K hfm species);
            m0 = spacemat_set (\<lambda>_ _. 0) 0 0 k;
            f = F hfm 0 phi species False;
            m1 = spacemat_set m0 0 (NT - 1) f
        in Inr (fold (\<lambda>tp m.
                  let f = F hfm tp phi species False;
                      m' = spacemat_set m tp (tp - 1) (- f)
                  in spacemat_set m' tp tp k) [1..<NT] m1))"

definition P :: "('n::len) HubbardFermiMatrix \<Rightarrow> (real, 'n) mat" where
  "P hfm =
     smult (2 - mu hfm * mu hfm) 1
     - smult (real_of_int (sint (sigmaKappa hfm)) * (1 + mu hfm) + 1 - mu hfm) (kappa hfm)
     + smult (real_of_int (sint (sigmaKappa hfm))) (kappa hfm) * kappa hfm"

definition Tplus ::
  "('n::len) HubbardFermiMatrix \<Rightarrow> nat \<Rightarrow> (complex, 'n) stvec \<Rightarrow> (complex, 'n) mat" where
  "Tplus hfm tp phi =
     (let NT = getNt phi;
          tm1 = (if tp = 0 then NT - 1 else tp - 1);
          antiPSign = (if tp = 0 then - 1 else 1 :: real);
          T = cplx (smult (real_of_int (sint (sigmaKappa hfm))) (kappa hfm))
              - smult (complex_of_real (1 - mu hfm)) 1
      in rowscale (vmap (\<lambda>z. complex_of_real antiPSign * exp (\<i> * z)) (spacevec phi tm1)) T)"

definition Tminus ::
  "('n::len) HubbardFermiMatrix \<Rightarrow> nat \<Rightarrow> (complex, 'n) stvec \<Rightarrow> (complex, 'n) mat" where
  "Tminus hfm tp phi =
     (let NT = getNt phi;
          antiPSign = (if tp = NT - 1 then - 1 else 1 :: real);
          T = cplx (kappa hfm) - smult (complex_of_real (1 + mu hfm)) 1
      in colscale (vmap (\<lambda>z. complex_of_real antiPSign * exp (- \<i> * z)) (spacevec phi tp)) T)"

definition Q :: "('n::len) HubbardFermiMatrix \<Rightarrow> (complex, 'n) stvec \<Rightarrow> (complex, 'n) stmat" where
  "Q hfm phi =
     (let NT = getNt phi;
          p = cplx (P hfm)
      in fold (\<lambda>tp q.
           let q1 = spacemat_set q tp tp p;
               q2 = spacemat_add q1 tp ((tp + NT - 1) mod NT) (Tplus hfm tp phi)
           in spacemat_add q2 tp ((tp + 1) mod NT) (Tminus hfm tp phi)) [0..<NT] (\<lambda>_ _. 0))"



section \<open>QLU: the block LU-decomposition of Q\<close>

text \<open>The members \<open>dinv\<close>, \<open>u\<close>, \<open>l\<close>, \<open>v\<close>, \<open>h\<close> of \<open>HubbardFermiMatrix::QLU\<close>.\<close>

record (overloaded) ('n) QLU =
  dinv :: "(complex, 'n) mat list"
  u :: "(complex, 'n) mat list"
  l :: "(complex, 'n) mat list"
  v :: "(complex, 'n) mat list"
  h :: "(complex, 'n) mat list"

definition isConsistent :: "('n::len) QLU \<Rightarrow> bool" where
  "isConsistent lu =
     (let nt = length (dinv lu) in
      if nt = 0 then False
      else if length (u lu) \<noteq> nt - 1 \<or> length (l lu) \<noteq> nt - 1 then False
      else if nt > 1 \<and> (length (v lu) \<noteq> nt - 2 \<or> length (h lu) \<noteq> nt - 2) then False
      else True)"

text \<open>
  \<open>QLU::reconstruct\<close>, statement by statement. Every \<open>operator[]\<close> of the source is a
  checked read here, and \<open>nt - 3\<close> is computed as the source computes it, on
  \<open>std::size_t\<close>. The checks under \<open>#ifndef NDEBUG\<close> are part of the model.
\<close>

definition recon_row0 ::
  "('n::len) QLU \<Rightarrow> nat \<Rightarrow> (complex, 'n) stmat \<Rightarrow> (complex, 'n) stmat res" where
  "recon_row0 lu nt recon =
     bindR (elem (dinv lu) 0) (\<lambda>d0.
     bindR (elem (u lu) 0) (\<lambda>u0.
     bindR (elem (v lu) 0) (\<lambda>v0.
       Inr (spacemat_set (spacemat_set (spacemat_set recon 0 0 (invert d0)) 0 1 u0)
              0 (nt - 1) v0))))"

definition recon_row ::
  "('n::len) QLU \<Rightarrow> nat \<Rightarrow> nat \<Rightarrow> (complex, 'n) stmat \<Rightarrow> (complex, 'n) stmat res" where
  "recon_row lu nt i recon =
     bindR (elem (dinv lu) i) (\<lambda>di.
     bindR (elem (l lu) (i - 1)) (\<lambda>lp.
     bindR (elem (u lu) (i - 1)) (\<lambda>up.
     bindR (elem (dinv lu) (i - 1)) (\<lambda>dp.
     bindR (elem (u lu) i) (\<lambda>ui.
     bindR (elem (v lu) (i - 1)) (\<lambda>vp.
     bindR (elem (v lu) i) (\<lambda>vi.
       Inr (spacemat_set
             (spacemat_set
               (spacemat_set
                 (spacemat_set recon i i (invert di + lp * up))
                 i (i - 1) (lp * invert dp))
               i (i + 1) ui)
             i (nt - 1) (lp * vp + vi)))))))))"

definition recon_row_nt2 ::
  "('n::len) QLU \<Rightarrow> nat \<Rightarrow> (complex, 'n) stmat \<Rightarrow> (complex, 'n) stmat res" where
  "recon_row_nt2 lu nt recon =
     bindR (elem (dinv lu) (nt - 2)) (\<lambda>d2.
     bindR (elem (l lu) (size_sub nt 3)) (\<lambda>l3.
     bindR (elem (u lu) (size_sub nt 3)) (\<lambda>u3.
     bindR (elem (dinv lu) (size_sub nt 3)) (\<lambda>d3.
     bindR (elem (v lu) (size_sub nt 3)) (\<lambda>v3.
     bindR (elem (u lu) (nt - 2)) (\<lambda>u2.
       Inr (spacemat_set
             (spacemat_set
               (spacemat_set recon (nt - 2) (nt - 2) (invert d2 + l3 * u3))
               (nt - 2) (size_sub nt 3) (l3 * invert d3))
             (nt - 2) (nt - 1) (l3 * v3 + u2))))))))"

definition recon_last0 ::
  "('n::len) QLU \<Rightarrow> nat \<Rightarrow> (complex, 'n) stmat \<Rightarrow> (complex, 'n) stmat res" where
  "recon_last0 lu nt recon =
     bindR (elem (dinv lu) 0) (\<lambda>d0.
     bindR (elem (h lu) 0) (\<lambda>h0.
       Inr (spacemat_set recon (nt - 1) 0 (h0 * invert d0))))"

definition recon_last ::
  "('n::len) QLU \<Rightarrow> nat \<Rightarrow> nat \<Rightarrow> (complex, 'n) stmat \<Rightarrow> (complex, 'n) stmat res" where
  "recon_last lu nt i recon =
     bindR (elem (dinv lu) i) (\<lambda>di.
     bindR (elem (h lu) (i - 1)) (\<lambda>hp.
     bindR (elem (u lu) (i - 1)) (\<lambda>up.
     bindR (elem (h lu) i) (\<lambda>hi.
       Inr (spacemat_set recon (nt - 1) i (hp * up + hi * invert di))))))"

definition recon_last2 ::
  "('n::len) QLU \<Rightarrow> nat \<Rightarrow> (complex, 'n) stmat \<Rightarrow> (complex, 'n) stmat res" where
  "recon_last2 lu nt recon =
     bindR (elem (dinv lu) (nt - 2)) (\<lambda>d2.
     bindR (elem (h lu) (size_sub nt 3)) (\<lambda>h3.
     bindR (elem (u lu) (size_sub nt 3)) (\<lambda>u3.
     bindR (elem (l lu) (nt - 2)) (\<lambda>l2.
     bindR (elem (dinv lu) (nt - 1)) (\<lambda>d1.
     bindR (elem (u lu) (nt - 2)) (\<lambda>u2.
       Inr (spacemat_set
             (spacemat_set recon (nt - 1) (nt - 2) (h3 * u3 + l2 * invert d2))
             (nt - 1) (nt - 1) (invert d1 + l2 * u2))))))))"

definition recon_corner ::
  "('n::len) QLU \<Rightarrow> nat \<Rightarrow> nat \<Rightarrow> (complex, 'n) stmat \<Rightarrow> (complex, 'n) stmat res" where
  "recon_corner lu nt i recon =
     bindR (elem (h lu) i) (\<lambda>hi.
     bindR (elem (v lu) i) (\<lambda>vi.
       Inr (spacemat_add recon (nt - 1) (nt - 1) (hi * vi))))"

definition reconstruct :: "('n::len) QLU \<Rightarrow> (complex, 'n) stmat res" where
  "reconstruct lu =
     (let nt = length (dinv lu) in
      if nt < 2 then Inl DomainError
      else if \<not> isConsistent lu then Inl RuntimeError
      else
        bindR (recon_row0 lu nt (\<lambda>_ _. 0)) (\<lambda>r0.
        bindR (foldR (recon_row lu nt) [1..<nt - 2] r0) (\<lambda>r1.
        bindR (recon_row_nt2 lu nt r1) (\<lambda>r2.
        bindR (recon_last0 lu nt r2) (\<lambda>r3.
        bindR (foldR (recon_last lu nt) [1..<nt - 2] r3) (\<lambda>r4.
        bindR (recon_last2 lu nt r4) (\<lambda>r5.
        foldR (recon_corner lu nt) [0..<nt - 2] r5)))))))"

text \<open>The three decompositions. \<open>emplace_back\<close> appends; \<open>back()\<close> is the last element.\<close>

definition nt1QLU :: "('n::len) HubbardFermiMatrix \<Rightarrow> (complex, 'n) stvec \<Rightarrow> 'n QLU" where
  "nt1QLU hfm phi =
     (let T = Tplus hfm 0 phi;
          d0 = cplx (P hfm) + T;
          T' = Tminus hfm 0 phi;
          d0' = d0 + T'
      in \<lparr>dinv = [invert d0'], u = [], l = [], v = [], h = []\<rparr>)"

definition nt2QLU :: "('n::len) HubbardFermiMatrix \<Rightarrow> (complex, 'n) stvec \<Rightarrow> 'n QLU" where
  "nt2QLU hfm phi =
     (let p = cplx (P hfm);
          d0 = invert p;
          l0 = (Tplus hfm 1 phi + Tminus hfm 1 phi) * d0;
          aux0 = Tplus hfm 0 phi + Tminus hfm 0 phi;
          d1 = invert (p - l0 * aux0)
      in \<lparr>dinv = [d0, d1], u = [aux0], l = [l0], v = [], h = []\<rparr>)"

text \<open>
  One round of the loop of \<open>generalQLU\<close>; the state is the decomposition so far and the
  local variable \<open>u\<close> of the source (here \<open>uprev\<close>), the previous super-diagonal block.
\<close>

definition generalQLU_step ::
  "('n::len) HubbardFermiMatrix \<Rightarrow> (complex, 'n) stvec \<Rightarrow> nat
     \<Rightarrow> 'n QLU \<times> (complex, 'n) mat \<Rightarrow> 'n QLU \<times> (complex, 'n) mat" where
  "generalQLU_step hfm phi i = (\<lambda>(lu, uprev).
     let p = cplx (P hfm);
         lu1 = lu\<lparr>dinv := dinv lu @ [invert (p - (l lu ! (i - 1)) * uprev)]\<rparr>;
         T = Tplus hfm (i + 1) phi;
         lu2 = lu1\<lparr>l := l lu1 @ [T * (dinv lu1 ! i)]\<rparr>;
         lu3 = lu2\<lparr>h := h lu2 @ [- (h lu2 ! (i - 1)) * uprev * (dinv lu2 ! i)]\<rparr>;
         lu4 = lu3\<lparr>v := v lu3 @ [- (l lu3 ! (i - 1)) * (v lu3 ! (i - 1))]\<rparr>;
         unew = Tminus hfm i phi
     in (lu4\<lparr>u := u lu4 @ [unew]\<rparr>, unew))"

text \<open>
  \<open>generalQLU\<close>. With fewer than three time slices the source reads out of range (\<open>phi\<close>
  for \<open>nt = 0\<close>, \<open>lu.l[nt-3]\<close> and a slice of \<open>phi\<close> otherwise); \<open>getQLU\<close> calls it for
  \<open>nt = 0\<close> only.
\<close>

definition generalQLU :: "('n::len) HubbardFermiMatrix \<Rightarrow> (complex, 'n) stvec \<Rightarrow> 'n QLU res" where
  "generalQLU hfm phi =
     (let nt = getNt phi in
      if nt < 3 then Inl OutOfRange
      else
        let p = cplx (P hfm);
            d0 = invert p;
            u0 = Tminus hfm 0 phi;
            lu0 = \<lparr>dinv = [d0], u = [u0], l = [Tplus hfm 1 phi * d0],
                   v = [Tplus hfm 0 phi], h = [Tminus hfm (nt - 1) phi * d0]\<rparr>;
            (lu1, uprev) = fold (generalQLU_step hfm phi) [1..<nt - 2] (lu0, u0);
            lu2 = lu1\<lparr>dinv := dinv lu1 @ [invert (p - (l lu1 ! (nt - 3)) * uprev)]\<rparr>;
            lu3 = lu2\<lparr>u := u lu2 @ [Tminus hfm (nt - 2) phi - (l lu2 ! (nt - 3)) * (v lu2 ! (nt - 3))]\<rparr>;
            lu4 = lu3\<lparr>l := l lu3 @ [(Tplus hfm (nt - 1) phi - (h lu3 ! (nt - 3)) * uprev) * (dinv lu3 ! (nt - 2))]\<rparr>;
            dlast = fold (\<lambda>i d. d - (h lu4 ! i) * (v lu4 ! i)) [0..<nt - 2]
                      (p - (l lu4 ! (nt - 2)) * (u lu4 ! (nt - 2)))
        in Inr (lu4\<lparr>dinv := dinv lu4 @ [invert dlast]\<rparr>))"

definition getQLU :: "('n::len) HubbardFermiMatrix \<Rightarrow> (complex, 'n) stvec \<Rightarrow> 'n QLU res" where
  "getQLU hfm phi =
     (let nt = getNt phi in
      if nt = 1 then Inr (nt1QLU hfm phi)
      else if nt = 2 then Inr (nt2QLU hfm phi)
      else generalQLU hfm phi)"

text \<open>
  \<open>solveQ\<close>: forward substitution with \<open>L\<close>, then backward substitution with \<open>U\<close>. The
  vectors \<open>y\<close> and \<open>x\<close> are written slice by slice; the last loop runs \<open>i\<close> from \<open>nt - 3\<close>
  down to \<open>0\<close> and is empty for \<open>nt = 2\<close>, where \<open>nt - 3\<close> wraps to \<open>size_t(-1)\<close>.
\<close>

definition solveQ_lu :: "('n::len) QLU \<Rightarrow> (complex, 'n) stvec \<Rightarrow> (complex, 'n) stvec res" where
  "solveQ_lu lu rhs =
     (let nt = length (dinv lu) in
      if \<not> isConsistent lu then Inl RuntimeError
      else if getNt rhs \<noteq> nt then Inl RuntimeError
      else
        let y0 = (replicate nt 0)[0 := spacevec rhs 0];
            y1 = fold (\<lambda>i y. y[i := spacevec rhs i - mv (l lu ! (i - 1)) (spacevec y (i - 1))])
                   [1..<nt - 1] y0;
            y2 = (if nt > 1
                  then
                    let ya = y1[nt - 1 := spacevec rhs (nt - 1)
                                          - mv (l lu ! (nt - 2)) (spacevec y1 (nt - 2))]
                    in fold (\<lambda>j y. y[nt - 1 := spacevec y (nt - 1) - mv (h lu ! j) (spacevec y j)])
                         [0..<nt - 2] ya
                  else y1);
            x0 = (replicate nt 0)[nt - 1 := mv (dinv lu ! (nt - 1)) (spacevec y2 (nt - 1))];
            x1 = (if nt > 1
                  then
                    let xa = x0[nt - 2 := mv (dinv lu ! (nt - 2))
                                 (spacevec y2 (nt - 2) - mv (u lu ! (nt - 2)) (spacevec x0 (nt - 1)))]
                    in fold (\<lambda>i x. x[i := mv (dinv lu ! i)
                                 (spacevec y2 i - mv (u lu ! i) (spacevec x (i + 1))
                                  - mv (v lu ! i) (spacevec x (nt - 1)))])
                         (rev [0..<nt - 2]) xa
                  else x0)
        in Inr x1)"

definition solveQ ::
  "('n::len) HubbardFermiMatrix \<Rightarrow> (complex, 'n) stvec \<Rightarrow> (complex, 'n) stvec \<Rightarrow> (complex, 'n) stvec res" where
  "solveQ hfm phi rhs = bindR (getQLU hfm phi) (\<lambda>lu. solveQ_lu lu rhs)"

section \<open>The relations defining the decomposition\<close>

text \<open>
  The factors of the decomposition for \<open>Nt \<ge> 3\<close> in the spec's words (its section on
  the block LU of \<open>Q\<close>), with \<open>d\<^sub>i\<close> the pivot block whose inverse is stored:
  \<open>d\<^sub>0 = P\<close>, \<open>d\<^sub>i = P - l\<^sub>i\<^sub>-\<^sub>1 u\<^sub>i\<^sub>-\<^sub>1\<close>, \<open>l\<^sub>i = T\<^sup>+\<^sub>i\<^sub>+\<^sub>1 d\<^sub>i\<^sup>-\<^sup>1\<close>,
  \<open>h\<^sub>i = - h\<^sub>i\<^sub>-\<^sub>1 u\<^sub>i\<^sub>-\<^sub>1 d\<^sub>i\<^sup>-\<^sup>1\<close>, \<open>v\<^sub>i = - l\<^sub>i\<^sub>-\<^sub>1 v\<^sub>i\<^sub>-\<^sub>1\<close>, and the special last two rows.
  The loop of \<open>generalQLU\<close> is compared with them below.
\<close>

definition generalQLU_spec :: "('n::len) HubbardFermiMatrix \<Rightarrow> (complex, 'n) stvec \<Rightarrow> 'n QLU \<Rightarrow> bool" where
  "generalQLU_spec hfm phi lu =
     (let nt = getNt phi; p = cplx (P hfm) in
      length (dinv lu) = nt \<and> length (u lu) = nt - 1 \<and> length (l lu) = nt - 1
      \<and> length (v lu) = nt - 2 \<and> length (h lu) = nt - 2
      \<and> dinv lu ! 0 = invert p
      \<and> l lu ! 0 = Tplus hfm 1 phi * dinv lu ! 0
      \<and> v lu ! 0 = Tplus hfm 0 phi
      \<and> h lu ! 0 = Tminus hfm (nt - 1) phi * dinv lu ! 0
      \<and> (\<forall>i < nt - 2. u lu ! i = Tminus hfm i phi)
      \<and> (\<forall>i \<in> {1..<nt - 2}.
            dinv lu ! i = invert (p - l lu ! (i - 1) * u lu ! (i - 1))
            \<and> l lu ! i = Tplus hfm (i + 1) phi * dinv lu ! i
            \<and> h lu ! i = - h lu ! (i - 1) * u lu ! (i - 1) * dinv lu ! i
            \<and> v lu ! i = - l lu ! (i - 1) * v lu ! (i - 1))
      \<and> dinv lu ! (nt - 2) = invert (p - l lu ! (nt - 3) * u lu ! (nt - 3))
      \<and> u lu ! (nt - 2) = Tminus hfm (nt - 2) phi - l lu ! (nt - 3) * v lu ! (nt - 3)
      \<and> l lu ! (nt - 2) = (Tplus hfm (nt - 1) phi - h lu ! (nt - 3) * u lu ! (nt - 3)) * dinv lu ! (nt - 2)
      \<and> dinv lu ! (nt - 1)
          = invert (p - l lu ! (nt - 2) * u lu ! (nt - 2) - (\<Sum>j < nt - 2. h lu ! j * v lu ! j)))"


text \<open>
  The pivot blocks \<open>d\<^sub>i\<close> that \<open>getQLU\<close> inverts, in the order of the time slices; the
  decomposition stores their inverses in \<open>dinv\<close>.
\<close>

definition pivotBlocks :: "('n::len) HubbardFermiMatrix \<Rightarrow> (complex, 'n) stvec \<Rightarrow> (complex, 'n) mat list" where
  "pivotBlocks hfm phi =
     (case getQLU hfm phi of
        Inl e \<Rightarrow> []
      | Inr lu \<Rightarrow>
          let nt = getNt phi; p = cplx (P hfm) in
          if nt = 1 then [p + Tplus hfm 0 phi + Tminus hfm 0 phi]
          else map (\<lambda>i. if i = 0 then p
                        else if i < nt - 1 then p - l lu ! (i - 1) * u lu ! (i - 1)
                        else p - l lu ! (nt - 2) * u lu ! (nt - 2) - (\<Sum>j < nt - 2. h lu ! j * v lu ! j))
                 [0..<nt])"


section \<open>logdetM and solveM\<close>

text \<open>
  \<open>logdetM\<close> returns its result and the matrix with its caches updated. The product
  \<open>aux\<close> starts as \<open>kinv * F(0)\<close> and is multiplied from the right by \<open>kinv * F(t)\<close>
  for \<open>t = 1 .. NT-1\<close>. With no time slice \<open>F(0)\<close> reads \<open>phi\<close> out of range.
\<close>

definition logdetM ::
  "('n::len) HubbardFermiMatrix \<Rightarrow> (complex, 'n) stvec \<Rightarrow> Species
     \<Rightarrow> complex res \<times> 'n HubbardFermiMatrix" where
  "logdetM hfm phi species =
     (if mu hfm \<noteq> 0 then (Inl RuntimeError, hfm)
      else
        let NT = getNt phi;
            (kinv, hfm1) = Kinv hfm species
        in if NT = 0 then (Inl OutOfRange, hfm1)
           else
             let f = F hfm1 0 phi species False;
                 aux0 = cplx kinv * f;
                 aux = fold (\<lambda>t aux. aux * cplx kinv * F hfm1 t phi species False) [1..<NT] aux0;
                 (ldk, hfm2) = logdetKinv hfm1 species
             in (Inr (toFirstLogBranch (- of_nat NT * ldk + logdet (1 + aux))), hfm2))"


text \<open>
  \<open>solveM\<close>, for a batch of right-hand sides. There is no test of \<open>mu\<close>. A right-hand
  side with another number of slices than \<open>phi\<close>, and \<open>phi\<close> with no slice, make the
  source read out of range.
\<close>

definition solveM_forward ::
  "('n::len) HubbardFermiMatrix \<Rightarrow> (complex, 'n) stvec \<Rightarrow> Species \<Rightarrow> (complex, 'n) mat
     \<Rightarrow> (complex, 'n) stvec \<Rightarrow> (complex, 'n) stvec" where
  "solveM_forward hfm phi species kinv rhs =
     (let nt = getNt phi;
          r0 = (replicate nt 0)[0 := mv kinv (spacevec rhs 0)]
      in fold (\<lambda>t r. r[t := mv kinv (spacevec rhs t
                               + mv (F hfm t phi species False) (spacevec r (t - 1)))])
           [1..<nt] r0)"

definition solveM_backward ::
  "nat \<Rightarrow> (complex, 'n::len) mat list \<Rightarrow> (complex, 'n) mat \<Rightarrow> (complex, 'n) stvec
     \<Rightarrow> (complex, 'n) stvec" where
  "solveM_backward nt partialA invmat r =
     (let r0 = r[nt - 1 := mv invmat (spacevec r (nt - 1))]
      in fold (\<lambda>t r. r[t := spacevec r t - mv (partialA ! t) (spacevec r (nt - 1))])
           [0..<nt - 1] r0)"

definition solveM ::
  "('n::len) HubbardFermiMatrix \<Rightarrow> (complex, 'n) stvec \<Rightarrow> Species \<Rightarrow> (complex, 'n) stvec list
     \<Rightarrow> (complex, 'n) stvec list res \<times> 'n HubbardFermiMatrix" where
  "solveM hfm phi species rhs =
     (let nt = getNt phi;
          (kinvR, hfm1) = Kinv hfm species;
          kinv = cplx kinvR
      in if nt = 0 \<or> (\<exists>r \<in> set rhs. getNt r \<noteq> nt) then (Inl OutOfRange, hfm1)
         else
           let res0 = map (solveM_forward hfm1 phi species kinv) rhs;
               partialA0 = [kinv * F hfm1 0 phi species False];
               partialA = fold (\<lambda>t pA. pA @ [kinv * F hfm1 t phi species False * last pA])
                            [1..<nt - 1] partialA0;
               invmat = invert (1 + kinv * F hfm1 (nt - 1) phi species False * last partialA)
           in (Inr (map (solveM_backward nt partialA invmat) res0), hfm1))"

section \<open>HubbardFermiAction (hubbardFermiAction.cpp)\<close>

datatype HFABasis = PARTICLE_HOLE | SPIN

text \<open>
  Modelled from the spec: \<open>isBipartite\<close> is not under src/. The spec: the hopping matrix
  is bipartite when there is a 2-colouring of the sites with no hopping inside a class.
\<close>

definition isBipartite :: "(real, 'n::len) mat \<Rightarrow> bool" where
  "isBipartite hopping =
     (\<exists>c \<in> set (List.n_lists LENGTH('n) [False, True]).
        \<forall>i \<in> {..<LENGTH('n)}. \<forall>j \<in> {..<LENGTH('n)}.
          entry hopping i j \<noteq> 0 \<longrightarrow> c ! i \<noteq> c ! j)"

text \<open>
  \<open>_holeShortcutPossible<BASIS>\<close>, both specialisations; the template argument is the
  first argument. The result is the decision and the lines written to the logger.
\<close>

definition holeShortcutPossible ::
  "HFABasis \<Rightarrow> (real, 'n::len) mat \<Rightarrow> real \<Rightarrow> 8 word \<Rightarrow> bool \<times> string list" where
  "holeShortcutPossible basis hopping muTilde sigmaKappa0 =
     (case basis of
        PARTICLE_HOLE \<Rightarrow>
          if \<not> isBipartite hopping
          then (False, [''Not using shortcut for hole determinant, lattice is not bipartite.''])
          else if muTilde \<noteq> 0
          then (False, [''Not using shortcut for hole determinant, chemical potential is not zero.''])
          else if sigmaKappa0 \<noteq> 1
          then (False, [''Not using shortcut for hole determinant, sigmaKappa is not +1'',
                        ''The other parameters allow using the shortcut, consider setting sigmaKappa to +1 or explicitly forbidding the use of the shortcut.''])
          else (True, [''Using shortcut to calculate hole determinant from particle determinant.''])
      | SPIN \<Rightarrow>
          (False, [''Not using shortcut for hole determinant, spin basis is not supported.'']))"

text \<open>
  The members \<open>_hfm\<close>, \<open>_kp\<close>, \<open>_kh\<close>, \<open>_shortcutForHoles\<close> of the action.
\<close>

record (overloaded) ('n) HubbardFermiAction =
  m_hfm :: "'n HubbardFermiMatrix"
  m_kp :: "(real, 'n) mat"
  m_kh :: "(real, 'n) mat"
  m_shortcutForHoles :: bool

text \<open>
  Modelled from the spec: the constructor of the action is not under src/ (only the
  functions it calls are). The spec: the action owns the matrix, \<open>kp = K(PARTICLE)\<close>,
  \<open>kh = K(HOLE)\<close>, and the flag \<open>shortcutForHoles\<close>, which records the decision of
  \<open>_holeShortcutPossible<BASIS>\<close>.
\<close>

definition newHubbardFermiAction ::
  "HFABasis \<Rightarrow> (real, 'n::len) mat \<Rightarrow> real \<Rightarrow> 8 word \<Rightarrow> 'n HubbardFermiAction" where
  "newHubbardFermiAction basis kappaTilde muTilde sigmaKappa0 =
     (let hfm = newHubbardFermiMatrix kappaTilde muTilde sigmaKappa0
      in \<lparr>m_hfm = hfm, m_kp = K hfm PARTICLE, m_kh = K hfm HOLE,
          m_shortcutForHoles = fst (holeShortcutPossible basis kappaTilde muTilde sigmaKappa0)\<rparr>)"




section \<open>Reachable states and the cache invariant\<close>



section \<open>Concrete inputs\<close>

text \<open>
  One lattice site, no hopping, \<open>sigmaKappa = +1\<close>, chemical potential \<open>mu0\<close>.
\<close>

definition hfm1x1 :: "real \<Rightarrow> 1 HubbardFermiMatrix" where
  "hfm1x1 mu0 = newHubbardFermiMatrix 0 mu0 1"


section \<open>Properties of the first-branch projection\<close>

lemma fmod_small_neg:
  assumes "- y < x" "x \<le> 0" "0 < y"
  shows "fmod x y = x"
proof -
  have le: "x / y \<le> 0" using assms by (simp add: divide_le_0_iff)
  have "- 1 < x / y" using assms by (simp add: pos_less_divide_eq)
  with le have c: "\<lceil>x / y\<rceil> = 0" by linarith
  have f: "\<lfloor>x / y\<rfloor> = 0" if "0 \<le> x / y"
  proof -
    from that le have "x / y = 0" by linarith
    then show ?thesis by (simp only: floor_zero)
  qed
  show ?thesis using c f by (simp add: fmod_def)
qed

lemma fmod_nonneg_range:
  assumes "0 \<le> x" "0 < y"
  shows "0 \<le> fmod x y \<and> fmod x y < y"
proof -
  define q where "q = x / y"
  have x: "x = q * y" using assms by (simp add: q_def)
  have q: "0 \<le> q" using assms by (simp add: q_def)
  have "real_of_int \<lfloor>q\<rfloor> \<le> q" "q < real_of_int \<lfloor>q\<rfloor> + 1"
    by linarith+
  then have "real_of_int \<lfloor>q\<rfloor> * y \<le> q * y" "q * y < (real_of_int \<lfloor>q\<rfloor> + 1) * y"
    using assms by (simp_all add: mult_right_mono)
  then have "0 \<le> x - real_of_int \<lfloor>q\<rfloor> * y \<and> x - real_of_int \<lfloor>q\<rfloor> * y < y"
    by (simp add: x algebra_simps)
  then show ?thesis using q by (simp add: fmod_def q_def [symmetric])
qed


lemma toFirstLogBranch_diff:
  "\<exists>k::int. toFirstLogBranch z - z = of_int k * (2 * of_real pi * \<i>)"
proof -
  let ?q = "(Im z + pi) / (2 * pi)"
  let ?n = "if 0 \<le> ?q then \<lfloor>?q\<rfloor> else \<lceil>?q\<rceil>"
  have "toFirstLogBranch z - z = of_int (- ?n) * (2 * of_real pi * \<i>)"
    by (simp add: toFirstLogBranch_def fmod_def complex_eq_iff)
  then show ?thesis by blast
qed

lemma toFirstLogBranch_range_upper:
  assumes "- pi \<le> Im z"
  shows "- pi \<le> Im (toFirstLogBranch z) \<and> Im (toFirstLogBranch z) < pi"
  using fmod_nonneg_range [of "Im z + pi" "2 * pi"] assms
  by (simp add: toFirstLogBranch_def)

text \<open>
  C5. The claim: for every complex \<open>z\<close>, \<open>toFirstLogBranch z\<close> keeps the real part,
  has its imaginary part in \<open>(-pi, pi]\<close> and differs from \<open>z\<close> by a multiple of
  \<open>2 pi i\<close>. The source's \<open>std::fmod\<close> truncates towards zero: at \<open>z = -4i\<close> the
  sum \<open>Im z + pi\<close> is negative, \<open>fmod\<close> returns it unchanged, and the result is \<open>-4i\<close>
  again, whose imaginary part lies below \<open>-pi\<close>; at \<open>z = pi i\<close> the result is
  \<open>-pi i\<close>, the excluded end of the interval.
\<close>

theorem toFirstLogBranch_leaves_first_branch:
  "toFirstLogBranch (Complex 0 (- 4)) = Complex 0 (- 4) \<and> - 4 < - pi
   \<and> toFirstLogBranch (Complex 0 pi) = Complex 0 (- pi)"
proof -
  have "fmod (- 4 + pi) (2 * pi) = - 4 + pi"
    using pi_less_4 pi_ge_two by (intro fmod_small_neg) auto
  then have a: "toFirstLogBranch (Complex 0 (- 4)) = Complex 0 (- 4)"
    by (simp add: toFirstLogBranch_def)
  have b: "toFirstLogBranch (Complex 0 pi) = Complex 0 (- pi)"
    by (simp add: toFirstLogBranch_def fmod_def)
  show ?thesis using a b pi_less_4 by simp
qed

section \<open>Evaluation on one lattice site\<close>

lemma mat1_eq_iff: "(A :: ('a::zero, 1) mat) = B \<longleftrightarrow> entry A 0 0 = entry B 0 0"
proof
  assume e: "entry A 0 0 = entry B 0 0"
  have "entry A i j = entry B i j" for i j
  proof (cases "i = 0 \<and> j = 0")
    case True
    then show ?thesis using e by simp
  next
    case False
    then have "entry A i j = 0" "entry B i j = 0"
      using entry [of A] entry [of B] by auto
    then show ?thesis by simp
  qed
  then have "entry A = entry B" by (intro ext)
  then show "A = B" by (simp add: entry_inject)
qed simp

lemma vec1_eq_iff: "(x :: ('a::zero, 1) vec) = y \<longleftrightarrow> coeff x 0 = coeff y 0"
proof
  assume e: "coeff x 0 = coeff y 0"
  have "coeff x i = coeff y i" for i
  proof (cases "i = 0")
    case True
    then show ?thesis using e by simp
  next
    case False
    then have "coeff x i = 0" "coeff y i = 0"
      using coeff [of x] coeff [of y] by auto
    then show ?thesis by simp
  qed
  then have "coeff x = coeff y" by (intro ext)
  then show "x = y" by (simp add: coeff_inject)
qed simp

lemma entry1_times: "entry ((A :: ('a::ring_1, 1) mat) * B) 0 0 = entry A 0 0 * entry B 0 0"
  by (simp add: times_mat.rep_eq)

lemma entry1_one: "entry (1 :: ('a::ring_1, 1) mat) 0 0 = 1"
  by (simp add: one_mat.rep_eq)

lemma entry1_invert: "entry (invert (A :: ('a::field, 1) mat)) 0 0 = 1 / entry A 0 0"
  by (simp add: invert.rep_eq)

lemma entry1_diagm: "entry (diagm (x :: ('a::zero, 1) vec)) 0 0 = coeff x 0"
  by (simp add: diagm.rep_eq)

lemma coeff1_vmap: "coeff (vmap f (x :: ('a::zero, 1) vec)) 0 = f (coeff x 0)"
  by (simp add: vmap.rep_eq)

lemma coeff1_mv: "coeff (mv (A :: ('a::ring_1, 1) mat) x) 0 = entry A 0 0 * coeff x 0"
  by (simp add: mv.rep_eq)

lemmas entry1_simps =
  mat1_eq_iff vec1_eq_iff entry1_times entry1_one entry1_invert entry1_diagm coeff1_vmap
  coeff1_mv plus_mat.rep_eq minus_mat.rep_eq uminus_mat.rep_eq zero_mat.rep_eq
  smult.rep_eq cplx.rep_eq rowscale.rep_eq colscale.rep_eq diagonal.rep_eq
  plus_vec.rep_eq minus_vec.rep_eq uminus_vec.rep_eq zero_vec.rep_eq vsmult.rep_eq





lemma isBipartite1_zero: "isBipartite (0 :: (real, 1) mat)"
  by (auto simp add: isBipartite_def zero_mat.rep_eq)

lemma exp_simps1 [simp]: "exp (\<i> * 0) = 1" "exp (- \<i> * 0) = 1"
  by simp_all

section \<open>The hole shortcut\<close>

text \<open>
  C7. The flag \<open>shortcutForHoles\<close> of a constructed action is true exactly when the
  basis is \<open>PARTICLE_HOLE\<close>, the hopping matrix is bipartite, \<open>muTilde\<close> is exactly 0
  and \<open>sigmaKappa\<close> is +1; for the \<open>SPIN\<close> basis it is false whatever the other
  arguments are.
\<close>

theorem shortcutForHoles_iff:
  "m_shortcutForHoles (newHubbardFermiAction basis hopping muTilde sk)
     = (basis = PARTICLE_HOLE \<and> isBipartite hopping \<and> muTilde = 0 \<and> sk = 1)
   \<and> \<not> m_shortcutForHoles (newHubbardFermiAction SPIN hopping muTilde sk)"
  by (cases basis) (simp_all add: newHubbardFermiAction_def holeShortcutPossible_def Let_def)

theorem shortcutForHoles_iff_witness:
  "m_shortcutForHoles (newHubbardFermiAction PARTICLE_HOLE (0 :: (real, 1) mat) 0 1)
   \<and> \<not> m_shortcutForHoles (newHubbardFermiAction PARTICLE_HOLE (0 :: (real, 1) mat) 0 (- 1))
   \<and> \<not> m_shortcutForHoles (newHubbardFermiAction SPIN (0 :: (real, 1) mat) 0 1)"
  using shortcutForHoles_iff [of PARTICLE_HOLE "0 :: (real, 1) mat" 0 1]
    shortcutForHoles_iff [of PARTICLE_HOLE "0 :: (real, 1) mat" 0 "- 1"]
    isBipartite1_zero
  by simp

section \<open>Cache coherence\<close>

lemma K_cache_indep [simp]:
  "K (hfm\<lparr>kinvp := a\<rparr>) sp = K hfm sp" "K (hfm\<lparr>kinvh := b\<rparr>) sp = K hfm sp"
  "K (hfm\<lparr>logdetKinvp := c\<rparr>) sp = K hfm sp" "K (hfm\<lparr>logdetKinvh := d\<rparr>) sp = K hfm sp"
  by (simp_all add: K_def)









section \<open>The guard on the chemical potential\<close>

lemma logdetM_mu_nonzero: "mu hfm \<noteq> 0 \<Longrightarrow> logdetM hfm phi species = (Inl RuntimeError, hfm)"
  by (simp add: logdetM_def)

lemma solveM_returns:
  "getNt phi \<noteq> 0 \<Longrightarrow> \<forall>r \<in> set rhs. getNt r = getNt phi
     \<Longrightarrow> \<exists>xs. fst (solveM hfm phi species rhs) = Inr xs \<and> length xs = length rhs"
  by (cases "Kinv hfm species") (auto simp add: solveM_def Let_def)

text \<open>
  C4. The claim: with \<open>mu \<noteq> 0\<close> both \<open>logdetM\<close> and \<open>solveM\<close> raise a failure and
  compute nothing. \<open>logdetM\<close> does; \<open>solveM\<close> has no guard: with \<open>mu = 1\<close>, no
  hopping, one site, two time slices of \<open>phi = 0\<close> and the right-hand side \<open>(1, 0)\<close>
  it returns \<open>(2/5, 1/5)\<close>, the solution of \<open>M x = rhs\<close>.
\<close>

theorem solveM_ignores_mu:
  "fst (logdetM (hfm1x1 1) [0, 0] PARTICLE) = Inl RuntimeError
   \<and> fst (solveM (hfm1x1 1) [0, 0] PARTICLE [[diagonal 1, 0]])
       = Inr [[diagonal (smult (2 / 5) 1), diagonal (smult (1 / 5) 1)]]"
proof -
  have a: "fst (logdetM (hfm1x1 1) [0, 0] PARTICLE) = Inl RuntimeError"
    by (simp add: logdetM_def hfm1x1_def newHubbardFermiMatrix_def)
  have b: "fst (solveM (hfm1x1 1) [0, 0] PARTICLE [[diagonal 1, 0]])
      = Inr [[diagonal (smult (2 / 5) 1), diagonal (smult (1 / 5) 1)]]"
    by (simp add: solveM_def solveM_forward_def solveM_backward_def hfm1x1_def
        newHubbardFermiMatrix_def Kinv_def K_def F_def getNt_def spacevec_def Let_def
        entry1_simps)
  show ?thesis using a b by simp
qed

section \<open>The blocks of M\<close>

lemma spacemat_set_apply:
  "spacemat_set m r c B r' c' = (if r' = r \<and> c' = c then B else m r' c')"
  by (simp add: spacemat_set_def)

lemma M_fold:
  "fold (\<lambda>tp m. spacemat_set (spacemat_set m tp (tp - Suc 0) (- G tp)) tp tp k) [Suc 0..<n] m1 r c
   = (if Suc 0 \<le> r \<and> r < n \<and> c = r then k
      else if Suc 0 \<le> r \<and> r < n \<and> c = r - Suc 0 then - G r
      else m1 r c)"
proof (induction n)
  case 0
  then show ?case by simp
next
  case (Suc n)
  show ?case
  proof (cases "Suc 0 \<le> n")
    case True
    then have "[Suc 0..<Suc n] = [Suc 0..<n] @ [n]" by simp
    then show ?thesis using Suc True
      by (auto simp add: spacemat_set_apply)
  next
    case False
    then show ?thesis by auto
  qed
qed

text \<open>
  C6, amended. With at least two time slices, \<open>M\<close> has \<open>K\<close> on every diagonal block,
  \<open>-F(t)\<close> on the sub-diagonal blocks \<open>(t, t-1)\<close>, \<open>+F(0)\<close> in the corner
  \<open>(0, Nt-1)\<close>, and zero blocks everywhere else.
\<close>

theorem M_blocks:
  assumes "2 \<le> getNt phi"
  shows "\<exists>m. M hfm phi species = Inr m
     \<and> (\<forall>t < getNt phi. m t t = cplx (K hfm species))
     \<and> (\<forall>t. 1 \<le> t \<and> t < getNt phi \<longrightarrow> m t (t - 1) = - F hfm t phi species False)
     \<and> m 0 (getNt phi - 1) = F hfm 0 phi species False
     \<and> (\<forall>r c. \<not> (r < getNt phi \<and> (c = r \<or> (1 \<le> r \<and> c = r - 1) \<or> (r = 0 \<and> c = getNt phi - 1)))
           \<longrightarrow> m r c = 0)"
  using assms
  by (auto simp add: M_def Let_def M_fold spacemat_set_apply)

theorem M_blocks_witness:
  "\<exists>m. M (hfm1x1 1) [0, 0] PARTICLE = Inr m
     \<and> m 0 0 = smult 2 1 \<and> m 1 1 = smult 2 1 \<and> m 1 0 = - 1 \<and> m 0 1 = 1 \<and> m 2 1 = 0"
proof -
  have n: "(2::nat) \<le> getNt [0 :: (complex, 1) vec, 0]" by (simp add: getNt_def)
  have k: "cplx (K (hfm1x1 1) PARTICLE) = smult 2 1"
    by (simp add: K_def hfm1x1_def newHubbardFermiMatrix_def entry1_simps)
  have f: "F (hfm1x1 1) t [0, 0] PARTICLE False = 1" if "t \<le> 2" for t
  proof -
    from that have "t = 0 \<or> t = 1 \<or> t = 2" by auto
    then show ?thesis
      by (auto simp add: F_def getNt_def spacevec_def entry1_simps)
  qed
  obtain m where m: "M (hfm1x1 1) [0, 0] PARTICLE = Inr m"
    "\<forall>t < getNt [0 :: (complex, 1) vec, 0]. m t t = cplx (K (hfm1x1 1) PARTICLE)"
    "\<forall>t. 1 \<le> t \<and> t < getNt [0 :: (complex, 1) vec, 0] \<longrightarrow> m t (t - 1) = - F (hfm1x1 1) t [0, 0] PARTICLE False"
    "m 0 (getNt [0 :: (complex, 1) vec, 0] - 1) = F (hfm1x1 1) 0 [0, 0] PARTICLE False"
    "\<forall>r c. \<not> (r < getNt [0 :: (complex, 1) vec, 0] \<and> (c = r \<or> (1 \<le> r \<and> c = r - 1) \<or> (r = 0 \<and> c = getNt [0 :: (complex, 1) vec, 0] - 1)))
           \<longrightarrow> m r c = 0"
    using M_blocks [OF n, of "hfm1x1 1" PARTICLE] by blast
  have "m 0 0 = smult 2 1" "m 1 1 = smult 2 1" using m(2) k by (simp_all add: getNt_def)
  moreover have "m 1 0 = - 1" using m(3) f [of 1] by (simp add: getNt_def)
  moreover have "m 0 1 = 1" using m(4) f [of 0] by (simp add: getNt_def)
  moreover have "m 2 1 = 0" using m(5) by (simp add: getNt_def)
  ultimately show ?thesis using m(1) by blast
qed

text \<open>
  C6 as stated fails with one time slice: the corner \<open>(0, Nt-1)\<close> is the diagonal
  block \<open>(0,0)\<close>, and the assignment of \<open>F(0)\<close> overwrites \<open>K\<close>. With \<open>mu = 1\<close> and
  \<open>phi = 0\<close> the block is the identity, while \<open>K\<close> is twice the identity.
\<close>

theorem M_one_slice_counterexample:
  "blockAt (M (hfm1x1 1) [0] PARTICLE) 0 0 = Inr 1
     \<and> cplx (K (hfm1x1 1) PARTICLE) = smult 2 1 \<and> (1 :: (complex, 1) mat) \<noteq> smult 2 1"
proof -
  have f: "F (hfm1x1 1) 0 [0] PARTICLE False = 1"
    by (simp add: F_def getNt_def spacevec_def entry1_simps)
  have "M (hfm1x1 1) [0] PARTICLE
      = Inr (spacemat_set (spacemat_set (\<lambda>_ _. 0) 0 0 (cplx (K (hfm1x1 1) PARTICLE))) 0 0
               (F (hfm1x1 1) 0 [0] PARTICLE False))"
    by (simp add: M_def getNt_def Let_def)
  moreover have "cplx (K (hfm1x1 1) PARTICLE) = smult 2 1"
    by (simp add: K_def hfm1x1_def newHubbardFermiMatrix_def entry1_simps)
  moreover have "(1 :: (complex, 1) mat) \<noteq> smult 2 1"
    by (simp add: entry1_simps)
  ultimately show ?thesis using f by (simp add: blockAt_def bindR_def spacemat_set_apply)
qed

section \<open>The loop of generalQLU\<close>

lemma fold_minus_sum:
  fixes d0 :: "'a::ab_group_add"
  shows "fold (\<lambda>i d. d - g i) [0..<n] d0 = d0 - (\<Sum>j<n. g j)"
  by (induction n) (simp_all add: algebra_simps)

lemma generalQLU_loop:
  fixes hfm :: "('n::len) HubbardFermiMatrix" and phi :: "(complex, 'n) stvec"
  defines "p \<equiv> cplx (P hfm)"
  defines "lu0 \<equiv> \<lparr>dinv = [invert p], u = [Tminus hfm 0 phi], l = [Tplus hfm 1 phi * invert p],
                   v = [Tplus hfm 0 phi], h = [Tminus hfm (getNt phi - 1) phi * invert p]\<rparr>"
  assumes "1 \<le> k"
  shows "case fold (generalQLU_step hfm phi) [1..<k] (lu0, Tminus hfm 0 phi) of (lu, uprev) \<Rightarrow>
     length (dinv lu) = k \<and> length (u lu) = k \<and> length (l lu) = k
     \<and> length (v lu) = k \<and> length (h lu) = k
     \<and> uprev = u lu ! (k - 1)
     \<and> dinv lu ! 0 = invert p
     \<and> l lu ! 0 = Tplus hfm 1 phi * dinv lu ! 0
     \<and> v lu ! 0 = Tplus hfm 0 phi
     \<and> h lu ! 0 = Tminus hfm (getNt phi - 1) phi * dinv lu ! 0
     \<and> (\<forall>i < k. u lu ! i = Tminus hfm i phi)
     \<and> (\<forall>i \<in> {1..<k}.
            dinv lu ! i = invert (p - l lu ! (i - 1) * u lu ! (i - 1))
            \<and> l lu ! i = Tplus hfm (i + 1) phi * dinv lu ! i
            \<and> h lu ! i = - h lu ! (i - 1) * u lu ! (i - 1) * dinv lu ! i
            \<and> v lu ! i = - l lu ! (i - 1) * v lu ! (i - 1))"
  using \<open>1 \<le> k\<close>
proof (induction k rule: dec_induct)
  case base
  then show ?case by (simp add: lu0_def)
next
  case (step k)
  obtain lu uprev where f: "fold (generalQLU_step hfm phi) [1..<k] (lu0, Tminus hfm 0 phi) = (lu, uprev)"
    by (cases "fold (generalQLU_step hfm phi) [1..<k] (lu0, Tminus hfm 0 phi)")
  from step.hyps have u: "[1..<Suc k] = [1..<k] @ [k]" by simp
  from step.IH f have ih: "length (dinv lu) = k" "length (u lu) = k" "length (l lu) = k"
     "length (v lu) = k" "length (h lu) = k" "uprev = u lu ! (k - 1)"
     "dinv lu ! 0 = invert p" "l lu ! 0 = Tplus hfm 1 phi * dinv lu ! 0"
     "v lu ! 0 = Tplus hfm 0 phi" "h lu ! 0 = Tminus hfm (getNt phi - 1) phi * dinv lu ! 0"
     "\<forall>i < k. u lu ! i = Tminus hfm i phi"
     "\<forall>i \<in> {1..<k}.
            dinv lu ! i = invert (p - l lu ! (i - 1) * u lu ! (i - 1))
            \<and> l lu ! i = Tplus hfm (i + 1) phi * dinv lu ! i
            \<and> h lu ! i = - h lu ! (i - 1) * u lu ! (i - 1) * dinv lu ! i
            \<and> v lu ! i = - l lu ! (i - 1) * v lu ! (i - 1)"
    by simp_all
  define d where "d = invert (p - l lu ! (k - 1) * uprev)"
  define lu' where "lu' = \<lparr>dinv = dinv lu @ [d], u = u lu @ [Tminus hfm k phi],
       l = l lu @ [Tplus hfm (k + 1) phi * d],
       v = v lu @ [- (l lu ! (k - 1)) * (v lu ! (k - 1))],
       h = h lu @ [- (h lu ! (k - 1)) * uprev * d]\<rparr>"
  have st: "generalQLU_step hfm phi k (lu, uprev) = (lu', Tminus hfm k phi)"
    using ih(1-5) step.hyps
    by (simp add: generalQLU_step_def Let_def nth_append p_def d_def lu'_def)
  have res: "fold (generalQLU_step hfm phi) [1..<Suc k] (lu0, Tminus hfm 0 phi) = (lu', Tminus hfm k phi)"
    using step.hyps f st by simp
  have len: "length (dinv lu') = Suc k" "length (u lu') = Suc k" "length (l lu') = Suc k"
    "length (v lu') = Suc k" "length (h lu') = Suc k"
    using ih(1-5) by (simp_all add: lu'_def)
  have old: "dinv lu' ! i = dinv lu ! i" "u lu' ! i = u lu ! i" "l lu' ! i = l lu ! i"
    "v lu' ! i = v lu ! i" "h lu' ! i = h lu ! i" if "i < k" for i
    using that ih(1-5) by (simp_all add: lu'_def nth_append)
  have new: "dinv lu' ! k = d" "u lu' ! k = Tminus hfm k phi" "l lu' ! k = Tplus hfm (k + 1) phi * d"
    "v lu' ! k = - (l lu ! (k - 1)) * (v lu ! (k - 1))" "h lu' ! k = - (h lu ! (k - 1)) * uprev * d"
    using ih(1-5) by (simp_all add: lu'_def nth_append)
  have k0: "0 < k" using step.hyps by simp
  have c1: "\<forall>i < Suc k. u lu' ! i = Tminus hfm i phi"
    using ih(11) old(2) new(2) by (auto simp add: less_Suc_eq)
  have c2: "dinv lu' ! i = invert (p - l lu' ! (i - 1) * u lu' ! (i - 1))
            \<and> l lu' ! i = Tplus hfm (i + 1) phi * dinv lu' ! i
            \<and> h lu' ! i = - h lu' ! (i - 1) * u lu' ! (i - 1) * dinv lu' ! i
            \<and> v lu' ! i = - l lu' ! (i - 1) * v lu' ! (i - 1)" if i: "i \<in> {1..<Suc k}" for i
  proof (cases "i = k")
    case True
    have "k - 1 < k" using k0 by simp
    then show ?thesis
      unfolding True new using old [of "k - 1"] ih(6) by (simp add: d_def)
  next
    case False
    with i have ik: "i < k" "i - 1 < k" "i \<in> {1..<k}" by auto
    show ?thesis using ih(12) ik(3) old [OF ik(1)] old [OF ik(2)] by simp
  qed
  show ?case
    unfolding res
    using len c1 c2 old [OF k0] ih(7-10) new(2) by simp
qed


lemma generalQLU_meets_spec:
  fixes hfm :: "('n::len) HubbardFermiMatrix" and phi :: "(complex, 'n) stvec"
  assumes nt3: "3 \<le> getNt phi"
  shows "\<exists>lu. generalQLU hfm phi = Inr lu \<and> generalQLU_spec hfm phi lu"
proof -
  define nt where "nt = getNt phi"
  define p where "p = cplx (P hfm)"
  define lu0 :: "'n QLU" where "lu0 = \<lparr>dinv = [invert p], u = [Tminus hfm 0 phi],
      l = [Tplus hfm 1 phi * invert p], v = [Tplus hfm 0 phi],
      h = [Tminus hfm (getNt phi - 1) phi * invert p]\<rparr>"
  have k1: "1 \<le> nt - 2" using nt3 by (simp add: nt_def)
  obtain lu1 uprev where f: "fold (generalQLU_step hfm phi) [1..<nt - 2] (lu0, Tminus hfm 0 phi) = (lu1, uprev)"
    by (cases "fold (generalQLU_step hfm phi) [1..<nt - 2] (lu0, Tminus hfm 0 phi)")
  have inv: "length (dinv lu1) = nt - 2" "length (u lu1) = nt - 2" "length (l lu1) = nt - 2"
     "length (v lu1) = nt - 2" "length (h lu1) = nt - 2" "uprev = u lu1 ! (nt - 2 - 1)"
     "dinv lu1 ! 0 = invert p" "l lu1 ! 0 = Tplus hfm 1 phi * dinv lu1 ! 0"
     "v lu1 ! 0 = Tplus hfm 0 phi" "h lu1 ! 0 = Tminus hfm (getNt phi - 1) phi * dinv lu1 ! 0"
     "\<forall>i < nt - 2. u lu1 ! i = Tminus hfm i phi"
     "\<forall>i \<in> {1..<nt - 2}.
            dinv lu1 ! i = invert (p - l lu1 ! (i - 1) * u lu1 ! (i - 1))
            \<and> l lu1 ! i = Tplus hfm (i + 1) phi * dinv lu1 ! i
            \<and> h lu1 ! i = - h lu1 ! (i - 1) * u lu1 ! (i - 1) * dinv lu1 ! i
            \<and> v lu1 ! i = - l lu1 ! (i - 1) * v lu1 ! (i - 1)"
    using generalQLU_loop [OF k1, of hfm phi] f
    by (simp_all add: lu0_def p_def)
  have n3: "nt - 2 - 1 = nt - 3" "nt - 3 < nt - 2" "0 < nt - 2" "nt - 2 < nt - 1" "nt - 1 = Suc (nt - 2)"
     "nt = Suc (Suc (nt - 2))"
    using nt3 by (simp_all add: nt_def)
  define d2 where "d2 = invert (p - l lu1 ! (nt - 3) * uprev)"
  define u2 where "u2 = Tminus hfm (nt - 2) phi - l lu1 ! (nt - 3) * v lu1 ! (nt - 3)"
  define l2 where "l2 = (Tplus hfm (nt - 1) phi - h lu1 ! (nt - 3) * uprev) * d2"
  define dlast where "dlast = p - l2 * u2 - (\<Sum>j < nt - 2. h lu1 ! j * v lu1 ! j)"
  define lu where "lu = lu1\<lparr>dinv := dinv lu1 @ [d2, invert dlast], u := u lu1 @ [u2],
      l := l lu1 @ [l2]\<rparr>"
  have f': "fold (generalQLU_step hfm phi) [1..<getNt phi - 2]
      (\<lparr>dinv = [invert (cplx (P hfm))], u = [Tminus hfm 0 phi],
        l = [Tplus hfm 1 phi * invert (cplx (P hfm))], v = [Tplus hfm 0 phi],
        h = [Tminus hfm (getNt phi - 1) phi * invert (cplx (P hfm))]\<rparr>, Tminus hfm 0 phi)
      = (lu1, uprev)"
    using f unfolding lu0_def p_def nt_def .
  have nlt: "\<not> getNt phi < 3" using nt3 by simp
  have g: "generalQLU hfm phi = Inr lu"
    apply (unfold generalQLU_def Let_def)
    apply (simp only: f' nlt if_False case_prod_conv)
    apply (fold nt_def p_def)
    using inv(1-5) n3(2,4)
    apply (simp add: nth_append fold_minus_sum d2_def u2_def l2_def dlast_def lu_def)
    done
  have old: "dinv lu ! i = dinv lu1 ! i" "u lu ! i = u lu1 ! i" "l lu ! i = l lu1 ! i"
    if "i < nt - 2" for i
    using that inv(1-5) by (simp_all add: lu_def nth_append)
  have vh: "v lu = v lu1" "h lu = h lu1" by (simp_all add: lu_def)
  have new: "dinv lu ! (nt - 2) = d2" "dinv lu ! (nt - 1) = invert dlast" "u lu ! (nt - 2) = u2"
    "l lu ! (nt - 2) = l2"
    using inv(1-5) n3 by (simp_all add: lu_def nth_append)
  have len: "length (dinv lu) = nt" "length (u lu) = nt - 1" "length (l lu) = nt - 1"
    "length (v lu) = nt - 2" "length (h lu) = nt - 2"
    using inv(1-5) n3 by (simp_all add: lu_def)
  have c1: "\<forall>i < nt - 2. u lu ! i = Tminus hfm i phi"
    using inv(11) old(2) by simp
  have c2: "\<forall>i \<in> {1..<nt - 2}.
            dinv lu ! i = invert (p - l lu ! (i - 1) * u lu ! (i - 1))
            \<and> l lu ! i = Tplus hfm (i + 1) phi * dinv lu ! i
            \<and> h lu ! i = - h lu ! (i - 1) * u lu ! (i - 1) * dinv lu ! i
            \<and> v lu ! i = - l lu ! (i - 1) * v lu ! (i - 1)"
  proof
    fix i assume i: "i \<in> {1..<nt - 2}"
    then have ik: "i < nt - 2" "i - 1 < nt - 2" by auto
    show "dinv lu ! i = invert (p - l lu ! (i - 1) * u lu ! (i - 1))
            \<and> l lu ! i = Tplus hfm (i + 1) phi * dinv lu ! i
            \<and> h lu ! i = - h lu ! (i - 1) * u lu ! (i - 1) * dinv lu ! i
            \<and> v lu ! i = - l lu ! (i - 1) * v lu ! (i - 1)"
      using inv(12) i old [OF ik(1)] old [OF ik(2)] vh by simp
  qed
  have up: "uprev = u lu ! (nt - 3)" using inv(6) n3(1) old(2) [OF n3(2)] by simp
  have c3: "dinv lu ! (nt - 2) = invert (p - l lu ! (nt - 3) * u lu ! (nt - 3))"
    "u lu ! (nt - 2) = Tminus hfm (nt - 2) phi - l lu ! (nt - 3) * v lu ! (nt - 3)"
    "l lu ! (nt - 2) = (Tplus hfm (nt - 1) phi - h lu ! (nt - 3) * u lu ! (nt - 3)) * dinv lu ! (nt - 2)"
    "dinv lu ! (nt - 1) = invert (p - l lu ! (nt - 2) * u lu ! (nt - 2) - (\<Sum>j < nt - 2. h lu ! j * v lu ! j))"
    unfolding new vh old(3) [OF n3(2)] up [symmetric]
    by (simp_all add: d2_def u2_def l2_def dlast_def)
  have c0: "dinv lu ! 0 = invert p" "l lu ! 0 = Tplus hfm 1 phi * dinv lu ! 0"
     "v lu ! 0 = Tplus hfm 0 phi" "h lu ! 0 = Tminus hfm (nt - 1) phi * dinv lu ! 0"
    using inv(7-10) old [OF n3(3)] vh by (simp_all add: nt_def)
  have "generalQLU_spec hfm phi lu"
    unfolding generalQLU_spec_def Let_def nt_def [symmetric] p_def [symmetric]
    using len c0 c1 c2 c3 by blast
  with g show ?thesis by blast
qed

section \<open>Forward and backward substitution\<close>

lemma fold_forward:
  fixes y0 :: "'a list"
  assumes "n \<le> length y0"
  shows "length (fold (\<lambda>i y. y[i := g i (y ! (i - 1))]) [1..<n] y0) = length y0
    \<and> (\<forall>i. i = 0 \<or> n \<le> i \<longrightarrow> fold (\<lambda>i y. y[i := g i (y ! (i - 1))]) [1..<n] y0 ! i = y0 ! i)
    \<and> (\<forall>i. 1 \<le> i \<and> i < n \<longrightarrow>
          fold (\<lambda>i y. y[i := g i (y ! (i - 1))]) [1..<n] y0 ! i
          = g i (fold (\<lambda>i y. y[i := g i (y ! (i - 1))]) [1..<n] y0 ! (i - 1)))"
  using assms
proof (induction n)
  case 0
  then show ?case by simp
next
  case (Suc n)
  let ?Y = "fold (\<lambda>i y. y[i := g i (y ! (i - 1))]) [1..<n] y0"
  from Suc have ih: "length ?Y = length y0" "\<forall>i. i = 0 \<or> n \<le> i \<longrightarrow> ?Y ! i = y0 ! i"
    "\<forall>i. 1 \<le> i \<and> i < n \<longrightarrow> ?Y ! i = g i (?Y ! (i - 1))" and n: "n < length y0"
    by simp_all
  show ?case
  proof (cases "1 \<le> n")
    case False
    then show ?thesis by auto
  next
    case True
    then have e: "fold (\<lambda>i y. y[i := g i (y ! (i - 1))]) [1..<Suc n] y0 = ?Y[n := g n (?Y ! (n - 1))]"
      by simp
    have a: "length (?Y[n := g n (?Y ! (n - 1))]) = length y0" using ih(1) by simp
    have b: "?Y[n := g n (?Y ! (n - 1))] ! i = y0 ! i" if "i = 0 \<or> Suc n \<le> i" for i
    proof -
      from that True have "i \<noteq> n" "i = 0 \<or> n \<le> i" by auto
      then show ?thesis using ih(2) by auto
    qed
    have c: "?Y[n := g n (?Y ! (n - 1))] ! i = g i (?Y[n := g n (?Y ! (n - 1))] ! (i - 1))"
      if "1 \<le> i \<and> i < Suc n" for i
    proof (cases "i = n")
      case eq: True
      have "n - 1 \<noteq> n" using True by simp
      then show ?thesis using eq n ih(1) by simp
    next
      case False
      with that have "1 \<le> i \<and> i < n" "i - 1 \<noteq> n" by auto
      then show ?thesis using ih(3) False by auto
    qed
    show ?thesis unfolding e using a b c by blast
  qed
qed

lemma fold_backward:
  fixes x0 :: "'a list"
  assumes "n \<le> kk" "kk < length x0" "m \<le> n"
  shows "length (fold (\<lambda>i x. x[i := g i (x ! (i + 1)) (x ! kk)]) (rev [m..<n]) x0) = length x0
    \<and> (\<forall>i. i < m \<or> n \<le> i \<longrightarrow> fold (\<lambda>i x. x[i := g i (x ! (i + 1)) (x ! kk)]) (rev [m..<n]) x0 ! i = x0 ! i)
    \<and> (\<forall>i. m \<le> i \<and> i < n \<longrightarrow>
          fold (\<lambda>i x. x[i := g i (x ! (i + 1)) (x ! kk)]) (rev [m..<n]) x0 ! i
          = g i (fold (\<lambda>i x. x[i := g i (x ! (i + 1)) (x ! kk)]) (rev [m..<n]) x0 ! (i + 1))
                (fold (\<lambda>i x. x[i := g i (x ! (i + 1)) (x ! kk)]) (rev [m..<n]) x0 ! kk))"
  using assms(3)
proof (induction m rule: inc_induct)
  case base
  then show ?case by auto
next
  case (step m)
  let ?X = "fold (\<lambda>i x. x[i := g i (x ! (i + 1)) (x ! kk)]) (rev [Suc m..<n]) x0"
  from step have ih: "length ?X = length x0" "\<forall>i. i < Suc m \<or> n \<le> i \<longrightarrow> ?X ! i = x0 ! i"
    "\<forall>i. Suc m \<le> i \<and> i < n \<longrightarrow> ?X ! i = g i (?X ! (i + 1)) (?X ! kk)" and mn: "m < n"
    by simp_all
  have e: "fold (\<lambda>i x. x[i := g i (x ! (i + 1)) (x ! kk)]) (rev [m..<n]) x0
      = ?X[m := g m (?X ! (m + 1)) (?X ! kk)]"
    using mn by (simp add: upt_conv_Cons)
  have a: "length (?X[m := g m (?X ! (m + 1)) (?X ! kk)]) = length x0" using ih(1) by simp
  have mk: "m \<noteq> kk" "m < length x0" using mn assms(1,2) by auto
  have b: "?X[m := g m (?X ! (m + 1)) (?X ! kk)] ! i = x0 ! i" if "i < m \<or> n \<le> i" for i
  proof -
    from that mn have "i \<noteq> m" "i < Suc m \<or> n \<le> i" by auto
    then show ?thesis using ih(2) by auto
  qed
  have c: "?X[m := g m (?X ! (m + 1)) (?X ! kk)] ! i
      = g i (?X[m := g m (?X ! (m + 1)) (?X ! kk)] ! (i + 1)) (?X[m := g m (?X ! (m + 1)) (?X ! kk)] ! kk)"
    if "m \<le> i \<and> i < n" for i
  proof (cases "i = m")
    case True
    show ?thesis unfolding True using mk ih(1) by simp
  next
    case False
    with that have "Suc m \<le> i \<and> i < n" "i + 1 \<noteq> m" by auto
    then show ?thesis using ih(3) False mk by auto
  qed
  show ?case unfolding e using a b c by blast
qed

section \<open>Blocks acting on space vectors\<close>

lemma mv_mult: "mv (A * B) x = mv A (mv B x)"
proof (transfer, intro ext)
  fix A B :: "nat \<Rightarrow> nat \<Rightarrow> 'a" and x :: "nat \<Rightarrow> 'a" and i
  have "(\<Sum>k<LENGTH('b). (\<Sum>m<LENGTH('b). A i m * B m k) * x k)
      = (\<Sum>k<LENGTH('b). \<Sum>m<LENGTH('b). A i m * (B m k * x k))"
    by (simp add: sum_distrib_right mult.assoc)
  also have "\<dots> = (\<Sum>m<LENGTH('b). \<Sum>k<LENGTH('b). A i m * (B m k * x k))"
    by (rule sum.swap)
  also have "\<dots> = (\<Sum>m<LENGTH('b). A i m * (\<Sum>k<LENGTH('b). B m k * x k))"
    by (simp add: sum_distrib_left)
  finally show "(\<Sum>k<LENGTH('b). (\<Sum>m<LENGTH('b). A i m * B m k) * x k)
      = (\<Sum>m<LENGTH('b). A i m * (\<Sum>k<LENGTH('b). B m k * x k))" .
qed

lemma mv_one [simp]: "mv 1 x = x"
proof (transfer, intro ext)
  fix x :: "nat \<Rightarrow> 'a" and i
  assume x: "\<forall>i. \<not> i < LENGTH('b) \<longrightarrow> x i = 0"
  have "(\<Sum>k<LENGTH('b). (if i = k \<and> i < LENGTH('b) then 1 else 0) * x k)
      = (\<Sum>k<LENGTH('b). if k = i then x k else 0)"
    by (rule sum.cong) auto
  also have "\<dots> = x i"
    using x by (simp add: sum.delta)
  finally show "(\<Sum>k<LENGTH('b). (if i = k \<and> i < LENGTH('b) then 1 else 0) * x k) = x i" .
qed

lemma mv_zero_left [simp]: "mv 0 x = 0"
  by transfer simp

lemma mv_zero_right [simp]: "mv A 0 = 0"
  by transfer simp

lemma mv_add_left: "mv (A + B) x = mv A x + mv B x"
  by transfer (simp add: distrib_right sum.distrib)

lemma mv_add_right: "mv A (x + y) = mv A x + mv A y"
  by transfer (simp add: distrib_left sum.distrib)

lemma mv_diff_left: "mv (A - B) x = mv A x - mv B x"
  by transfer (simp add: left_diff_distrib sum_subtractf)

lemma mv_diff_right: "mv A (x - y) = mv A x - mv A y"
  by transfer (simp add: right_diff_distrib sum_subtractf)

lemma mv_minus_left: "mv (- A) x = - mv A x"
  by transfer (simp add: sum_negf)

lemma mv_minus_right: "mv A (- x) = - mv A x"
  by transfer (simp add: sum_negf)

lemma mv_sum_left: "mv (\<Sum>j\<in>S. A j) x = (\<Sum>j\<in>S. mv (A j) x)"
  by (induction S rule: infinite_finite_induct) (simp_all add: mv_add_left)

lemma mv_sum_right: "mv A (\<Sum>j\<in>S. x j) = (\<Sum>j\<in>S. mv A (x j))"
  by (induction S rule: infinite_finite_induct) (simp_all add: mv_add_right)

lemmas mv_simps = mv_mult mv_add_left mv_add_right mv_diff_left mv_diff_right mv_minus_left
  mv_minus_right mv_sum_left mv_sum_right

lemma blockLU_rows:
  fixes p :: "('a::ring_1, 'n::len) mat" and Tp Tm D di uu ll vv hh :: "nat \<Rightarrow> ('a, 'n) mat"
    and rhs y x :: "nat \<Rightarrow> ('a, 'n) vec"
  assumes nt: "3 \<le> nt"
    and inv1: "\<And>i. i < nt \<Longrightarrow> di i * D i = 1"
    and inv2: "\<And>i. i < nt \<Longrightarrow> D i * di i = 1"
    and D0: "D 0 = p"
    and Di: "\<And>i. 1 \<le> i \<Longrightarrow> i \<le> nt - 2 \<Longrightarrow> D i = p - ll (i - 1) * uu (i - 1)"
    and Dl: "D (nt - 1) = p - ll (nt - 2) * uu (nt - 2) - (\<Sum>j<nt - 2. hh j * vv j)"
    and u1: "\<And>i. i < nt - 2 \<Longrightarrow> uu i = Tm i"
    and u2: "uu (nt - 2) = Tm (nt - 2) - ll (nt - 3) * vv (nt - 3)"
    and l1: "\<And>i. i < nt - 2 \<Longrightarrow> ll i = Tp (i + 1) * di i"
    and l2: "ll (nt - 2) = (Tp (nt - 1) - hh (nt - 3) * uu (nt - 3)) * di (nt - 2)"
    and v0: "vv 0 = Tp 0"
    and v1: "\<And>i. 1 \<le> i \<Longrightarrow> i < nt - 2 \<Longrightarrow> vv i = - ll (i - 1) * vv (i - 1)"
    and h0: "hh 0 = Tm (nt - 1) * di 0"
    and h1: "\<And>i. 1 \<le> i \<Longrightarrow> i < nt - 2 \<Longrightarrow> hh i = - hh (i - 1) * uu (i - 1) * di i"
    and y0: "y 0 = rhs 0"
    and y1: "\<And>i. 1 \<le> i \<Longrightarrow> i < nt - 1 \<Longrightarrow> y i = rhs i - mv (ll (i - 1)) (y (i - 1))"
    and y2: "y (nt - 1) = rhs (nt - 1) - mv (ll (nt - 2)) (y (nt - 2)) - (\<Sum>j<nt - 2. mv (hh j) (y j))"
    and x0: "x (nt - 1) = mv (di (nt - 1)) (y (nt - 1))"
    and x1: "x (nt - 2) = mv (di (nt - 2)) (y (nt - 2) - mv (uu (nt - 2)) (x (nt - 1)))"
    and x2: "\<And>i. i < nt - 2 \<Longrightarrow> x i = mv (di i) (y i - mv (uu i) (x (i + 1)) - mv (vv i) (x (nt - 1)))"
    and t: "t < nt"
  shows "mv p (x t) + mv (Tp t) (x ((t + nt - 1) mod nt)) + mv (Tm t) (x ((t + 1) mod nt)) = rhs t"
proof -
  have cancel: "mv (D i) (mv (di i) w) = w" if "i < nt" for i w
    using inv2 [OF that] by (simp add: mv_mult [symmetric])
  have DX: "mv (D i) (x i) = y i - mv (uu i) (x (i + 1)) - mv (vv i) (x (nt - 1))" if "i < nt - 2" for i
    using x2 [OF that] cancel [of i] that by simp
  have DX1: "mv (D (nt - 2)) (x (nt - 2)) = y (nt - 2) - mv (uu (nt - 2)) (x (nt - 1))"
    using x1 cancel [of "nt - 2"] nt by simp
  have DX2: "mv (D (nt - 1)) (x (nt - 1)) = y (nt - 1)"
    using x0 cancel [of "nt - 1"] nt by simp
  have LD: "ll i * D i = Tp (i + 1)" if "i < nt - 2" for i
  proof -
    have "ll i * D i = Tp (i + 1) * (di i * D i)" using l1 [OF that] by (simp add: mult.assoc)
    then show ?thesis using inv1 [of i] that by simp
  qed
  have LD2: "ll (nt - 2) * D (nt - 2) = Tp (nt - 1) - hh (nt - 3) * uu (nt - 3)"
  proof -
    have "ll (nt - 2) * D (nt - 2) = (Tp (nt - 1) - hh (nt - 3) * uu (nt - 3)) * (di (nt - 2) * D (nt - 2))"
      using l2 by (simp add: mult.assoc)
    then show ?thesis using inv1 [of "nt - 2"] nt by simp
  qed
  have HD0: "hh 0 * D 0 = Tm (nt - 1)"
  proof -
    have "hh 0 * D 0 = Tm (nt - 1) * (di 0 * D 0)" using h0 by (simp add: mult.assoc)
    then show ?thesis using inv1 [of 0] nt by simp
  qed
  have HD: "hh i * D i = - hh (i - 1) * uu (i - 1)" if "1 \<le> i" "i < nt - 2" for i
  proof -
    have "hh i * D i = - hh (i - 1) * uu (i - 1) * (di i * D i)" using h1 [OF that] by (simp add: mult.assoc)
    then show ?thesis using inv1 [of i] that by simp
  qed
  consider "t = 0" | "1 \<le> t" "t < nt - 2" | "t = nt - 2" | "t = nt - 1"
    using t by linarith
  then show ?thesis
  proof cases
    case 1
    have m: "(0 + nt - 1) mod nt = nt - 1" "(0 + 1) mod nt = 1" using nt by simp_all
    have "mv p (x 0) = y 0 - mv (uu 0) (x 1) - mv (vv 0) (x (nt - 1))"
      using DX [of 0] D0 nt by simp
    then show ?thesis
      unfolding 1 m using u1 [of 0] v0 y0 nt by (simp add: algebra_simps)
  next
    case 2
    have m: "(t + nt - 1) mod nt = t - 1" "(t + 1) mod nt = t + 1"
      using 2 nt by (auto simp add: mod_if)
    have t1: "t - 1 < nt - 2" "t - 1 + 1 = t" "t \<le> nt - 2" "t < nt - 1" using 2 by simp_all
    have a: "mv p (x t) = mv (D t) (x t) + mv (ll (t - 1)) (mv (uu (t - 1)) (x t))"
      using Di [OF 2(1) t1(3)] by (simp add: mv_simps)
    have b: "mv (Tp t) (x (t - 1)) = mv (ll (t - 1)) (mv (D (t - 1)) (x (t - 1)))"
      using LD [OF t1(1)] t1(2) by (simp add: mv_mult [symmetric])
    have c: "mv (vv t) w = - mv (ll (t - 1)) (mv (vv (t - 1)) w)" for w
      using v1 [OF 2] by (simp add: mv_simps)
    show ?thesis
      unfolding m a b DX [OF 2(2)] DX [OF t1(1)] t1(2) c u1 [OF 2(2), symmetric]
      using y1 [OF 2(1) t1(4)] by (simp add: mv_simps algebra_simps)
  next
    case 3
    have m: "(nt - 2 + nt - 1) mod nt = nt - 3" "(nt - 2 + 1) mod nt = nt - 1"
      using nt by (auto simp add: mod_if)
    have t1: "nt - 3 < nt - 2" "nt - 3 + 1 = nt - 2" "1 \<le> nt - 2" "nt - 2 \<le> nt - 2" "nt - 2 < nt - 1"
      "nt - 2 - 1 = nt - 3"
      using nt by simp_all
    have a: "mv p (x (nt - 2)) = mv (D (nt - 2)) (x (nt - 2)) + mv (ll (nt - 3)) (mv (uu (nt - 3)) (x (nt - 2)))"
      using Di [OF t1(3,4)] t1(6) by (simp add: mv_simps)
    have b: "mv (Tp (nt - 2)) (x (nt - 3)) = mv (ll (nt - 3)) (mv (D (nt - 3)) (x (nt - 3)))"
      using LD [OF t1(1)] t1(2) by (simp add: mv_mult [symmetric])
    have c: "mv (Tm (nt - 2)) w = mv (uu (nt - 2)) w + mv (ll (nt - 3)) (mv (vv (nt - 3)) w)" for w
      using u2 by (simp add: mv_simps)
    show ?thesis
      unfolding 3 m a b c DX1 DX [OF t1(1)] t1(2)
      using y1 [OF t1(3,5)] t1(6) by (simp add: mv_simps algebra_simps)
  next
    case 4
    have m: "(nt - 1 + nt - 1) mod nt = nt - 2" "(nt - 1 + 1) mod nt = 0"
      using nt by (auto simp add: mod_if)
    have tel: "(\<Sum>j<Suc k. mv (hh j) (mv (D j) (x j)) + mv (hh j) (mv (uu j) (x (j + 1))))
         = mv (hh 0) (mv (D 0) (x 0)) + mv (hh k) (mv (uu k) (x (k + 1)))" if "k < nt - 2" for k
      using that
    proof (induction k)
      case 0
      then show ?case by simp
    next
      case (Suc k)
      then have ih: "(\<Sum>j<Suc k. mv (hh j) (mv (D j) (x j)) + mv (hh j) (mv (uu j) (x (j + 1))))
         = mv (hh 0) (mv (D 0) (x 0)) + mv (hh k) (mv (uu k) (x (k + 1)))" by simp
      have "mv (hh (Suc k)) (mv (D (Suc k)) (x (Suc k))) = - mv (hh k) (mv (uu k) (x (Suc k)))"
        using HD [of "Suc k"] Suc.prems by (simp add: mv_mult [symmetric] mv_minus_left)
      then show ?case
        unfolding sum.lessThan_Suc [of _ "Suc k"] ih by simp
    qed
    have ysum: "(\<Sum>j<nt - 2. mv (hh j) (y j))
        = (\<Sum>j<nt - 2. mv (hh j) (mv (D j) (x j)) + mv (hh j) (mv (uu j) (x (j + 1))))
          + (\<Sum>j<nt - 2. mv (hh j) (mv (vv j) (x (nt - 1))))"
    proof -
      have "mv (hh j) (y j) = (mv (hh j) (mv (D j) (x j)) + mv (hh j) (mv (uu j) (x (j + 1))))
          + mv (hh j) (mv (vv j) (x (nt - 1)))" if "j < nt - 2" for j
      proof -
        have "y j = mv (D j) (x j) + mv (uu j) (x (j + 1)) + mv (vv j) (x (nt - 1))"
          using DX [OF that] by (simp add: algebra_simps)
        then show ?thesis by (simp only: mv_add_right)
      qed
      then show ?thesis by (simp add: sum.distrib [symmetric])
    qed
    have n2: "nt - 2 = Suc (nt - 3)" "nt - 3 < nt - 2" "nt - 3 + 1 = nt - 2" using nt by simp_all
    have tel': "(\<Sum>j<nt - 2. mv (hh j) (mv (D j) (x j)) + mv (hh j) (mv (uu j) (x (j + 1))))
         = mv (Tm (nt - 1)) (x 0) + mv (hh (nt - 3)) (mv (uu (nt - 3)) (x (nt - 2)))"
      using tel [OF n2(2)] n2(3) HD0 unfolding n2(1) [symmetric] by (simp add: mv_mult [symmetric])
    have a: "mv p (x (nt - 1)) = mv (D (nt - 1)) (x (nt - 1)) + mv (ll (nt - 2)) (mv (uu (nt - 2)) (x (nt - 1)))
        + (\<Sum>j<nt - 2. mv (hh j) (mv (vv j) (x (nt - 1))))"
    proof -
      have pe: "p = D (nt - 1) + ll (nt - 2) * uu (nt - 2) + (\<Sum>j<nt - 2. hh j * vv j)"
        using Dl by (simp add: algebra_simps)
      show ?thesis by (subst pe) (simp add: mv_simps)
    qed
    have b: "mv (Tp (nt - 1)) w = mv (ll (nt - 2)) (mv (D (nt - 2)) w) + mv (hh (nt - 3)) (mv (uu (nt - 3)) w)" for w
      using LD2 by (simp add: mv_mult [symmetric] mv_add_left [symmetric])
    show ?thesis
      unfolding 4 m a b DX1 DX2 y2 ysum tel'
      by (simp add: mv_simps algebra_simps)
  qed
qed

section \<open>The blocks of Q\<close>

lemma spacemat_add_apply:
  "spacemat_add m r c B r' c' = (if r' = r \<and> c' = c then m r c + B else m r' c')"
  by (simp add: spacemat_add_def spacemat_set_def)

lemma Q_fold:
  "fold (\<lambda>tp q. spacemat_add (spacemat_add (spacemat_set q tp tp p) tp (c1 tp) (A tp)) tp (c2 tp) (B tp))
     [0..<n] (\<lambda>_ _. 0) t c
   = (if t < n
      then (if c = t then p else 0) + (if c = c1 t then A t else 0) + (if c = c2 t then B t else 0)
      else 0)"
proof (induction n arbitrary: t c)
  case 0
  then show ?case by simp
next
  case (Suc n)
  let ?q = "fold (\<lambda>tp q. spacemat_add (spacemat_add (spacemat_set q tp tp p) tp (c1 tp) (A tp)) tp (c2 tp) (B tp))
     [0..<n] (\<lambda>_ _. 0)"
  have row: "?q n c' = 0" for c' by (simp add: Suc.IH)
  have e: "fold (\<lambda>tp q. spacemat_add (spacemat_add (spacemat_set q tp tp p) tp (c1 tp) (A tp)) tp (c2 tp) (B tp))
     [0..<Suc n] (\<lambda>_ _. 0)
     = spacemat_add (spacemat_add (spacemat_set ?q n n p) n (c1 n) (A n)) n (c2 n) (B n)"
    by simp
  show ?case
  proof (cases "t = n")
    case True
    show ?thesis
      unfolding e True
      by (simp add: spacemat_add_apply spacemat_set_apply row)
  next
    case False
    have "spacemat_add (spacemat_add (spacemat_set ?q n n p) n (c1 n) (A n)) n (c2 n) (B n) t c = ?q t c"
      using False by (simp add: spacemat_add_apply spacemat_set_apply)
    then show ?thesis unfolding e using False Suc by (simp add: less_Suc_eq)
  qed
qed

lemma Q_block:
  "Q hfm phi t c =
     (if t < getNt phi
      then (if c = t then cplx (P hfm) else 0)
           + (if c = (t + getNt phi - 1) mod getNt phi then Tplus hfm t phi else 0)
           + (if c = (t + 1) mod getNt phi then Tminus hfm t phi else 0)
      else 0)"
  unfolding Q_def Let_def by (rule Q_fold)

lemma sum_mv_if:
  "c < (n::nat) \<Longrightarrow> (\<Sum>j<n. mv (if j = c then A else 0) (x j)) = mv A (x c)"
proof -
  assume c: "c < n"
  have "(\<Sum>j<n. mv (if j = c then A else 0) (x j)) = (\<Sum>j<n. if j = c then mv A (x j) else 0)"
    by (rule sum.cong) auto
  also have "\<dots> = (if c \<in> {..<n} then mv A (x c) else 0)"
    by (rule sum.delta) simp
  also have "\<dots> = mv A (x c)" using c by simp
  finally show ?thesis .
qed

lemma stmv_Q:
  assumes "t < getNt phi"
  shows "stmv (getNt phi) (Q hfm phi) x ! t
     = mv (cplx (P hfm)) (x ! t)
       + mv (Tplus hfm t phi) (x ! ((t + getNt phi - 1) mod getNt phi))
       + mv (Tminus hfm t phi) (x ! ((t + 1) mod getNt phi))"
proof -
  have n: "0 < getNt phi" using assms by simp
  then have m: "(t + getNt phi - 1) mod getNt phi < getNt phi" "(t + 1) mod getNt phi < getNt phi"
    by simp_all
  have "stmv (getNt phi) (Q hfm phi) x ! t
      = (\<Sum>c<getNt phi. mv (Q hfm phi t c) (x ! c))"
    using assms by (simp add: stmv_def spacevec_def)
  also have "\<dots> = (\<Sum>c<getNt phi. mv (if c = t then cplx (P hfm) else 0) (x ! c))
      + (\<Sum>c<getNt phi. mv (if c = (t + getNt phi - 1) mod getNt phi then Tplus hfm t phi else 0) (x ! c))
      + (\<Sum>c<getNt phi. mv (if c = (t + 1) mod getNt phi then Tminus hfm t phi else 0) (x ! c))"
    using assms by (simp only: Q_block if_True mv_add_left sum.distrib)
  finally show ?thesis
    by (simp only: sum_mv_if [OF assms] sum_mv_if [OF m(1)] sum_mv_if [OF m(2)])
qed

lemma length_stmv [simp]: "length (stmv nt m x) = nt"
  by (simp add: stmv_def)

section \<open>solveQ\<close>

lemma fold_accum':
  fixes y :: "'a::ab_group_add list"
  assumes "k < length y" "m \<le> k"
  shows "fold (\<lambda>j y. y[k := y ! k - f j (y ! j)]) [0..<m] y = y[k := y ! k - (\<Sum>j<m. f j (y ! j))]"
  using assms(2)
proof (induction m)
  case 0
  then show ?case by simp
next
  case (Suc m)
  then have ih: "fold (\<lambda>j y. y[k := y ! k - f j (y ! j)]) [0..<m] y
       = y[k := y ! k - (\<Sum>j<m. f j (y ! j))]" and mk: "m < k" "m \<noteq> k"
    by simp_all
  show ?case
    using assms(1) mk by (simp add: ih algebra_simps)
qed

lemma solveQ_lu_char:
  fixes lu :: "('n::len) QLU"
  assumes c: "isConsistent lu" and r: "getNt rhs = length (dinv lu)" and n2: "2 \<le> length (dinv lu)"
  shows "\<exists>x y. solveQ_lu lu rhs = Inr x \<and> length x = length (dinv lu)
     \<and> y ! 0 = rhs ! 0
     \<and> (\<forall>i. 1 \<le> i \<and> i < length (dinv lu) - 1 \<longrightarrow> y ! i = rhs ! i - mv (l lu ! (i - 1)) (y ! (i - 1)))
     \<and> y ! (length (dinv lu) - 1)
         = rhs ! (length (dinv lu) - 1) - mv (l lu ! (length (dinv lu) - 2)) (y ! (length (dinv lu) - 2))
           - (\<Sum>j<length (dinv lu) - 2. mv (h lu ! j) (y ! j))
     \<and> x ! (length (dinv lu) - 1) = mv (dinv lu ! (length (dinv lu) - 1)) (y ! (length (dinv lu) - 1))
     \<and> x ! (length (dinv lu) - 2)
         = mv (dinv lu ! (length (dinv lu) - 2))
             (y ! (length (dinv lu) - 2) - mv (u lu ! (length (dinv lu) - 2)) (x ! (length (dinv lu) - 1)))
     \<and> (\<forall>i<length (dinv lu) - 2.
           x ! i = mv (dinv lu ! i) (y ! i - mv (u lu ! i) (x ! (i + 1))
                                    - mv (v lu ! i) (x ! (length (dinv lu) - 1))))"
proof -
  define nt where "nt = length (dinv lu)"
  have nt: "2 \<le> nt" "0 < nt" "1 < nt" "nt - 1 < nt" "nt - 2 < nt" "nt - 2 \<le> nt - 1" "nt - 1 \<le> nt"
    "nt - 2 \<noteq> nt - 1" "nt - 2 + 1 = nt - 1" "nt - 2 < nt - 1"
    using n2 by (auto simp add: nt_def)
  define gy where "gy = (\<lambda>i a. rhs ! i - mv (l lu ! (i - 1)) a)"
  define y0 where "y0 = (replicate nt (0 :: (complex, 'n) vec))[0 := rhs ! 0]"
  define y1 where "y1 = fold (\<lambda>i y. y[i := gy i (y ! (i - 1))]) [1..<nt - 1] y0"
  define ya where "ya = y1[nt - 1 := rhs ! (nt - 1) - mv (l lu ! (nt - 2)) (y1 ! (nt - 2))]"
  define y2 where "y2 = fold (\<lambda>j y. y[nt - 1 := y ! (nt - 1) - mv (h lu ! j) (y ! j)]) [0..<nt - 2] ya"
  define gx where "gx = (\<lambda>i a b. mv (dinv lu ! i) (y2 ! i - mv (u lu ! i) a - mv (v lu ! i) b))"
  define x0 where "x0 = (replicate nt (0 :: (complex, 'n) vec))[nt - 1 := mv (dinv lu ! (nt - 1)) (y2 ! (nt - 1))]"
  define xa where "xa = x0[nt - 2 := mv (dinv lu ! (nt - 2)) (y2 ! (nt - 2) - mv (u lu ! (nt - 2)) (x0 ! (nt - 1)))]"
  define x1 where "x1 = fold (\<lambda>i x. x[i := gx i (x ! (i + 1)) (x ! (nt - 1))]) (rev [0..<nt - 2]) xa"
  have res: "solveQ_lu lu rhs = Inr x1"
    using c r nt(3)
    unfolding solveQ_lu_def Let_def spacevec_def nt_def [symmetric]
    by (simp add: x1_def xa_def x0_def y2_def ya_def y1_def y0_def gx_def gy_def)
  have ly0: "length y0 = nt" by (simp add: y0_def)
  have f1: "length y1 = nt" "\<forall>i. i = 0 \<or> nt - 1 \<le> i \<longrightarrow> y1 ! i = y0 ! i"
    "\<forall>i. 1 \<le> i \<and> i < nt - 1 \<longrightarrow> y1 ! i = gy i (y1 ! (i - 1))"
    using fold_forward [of "nt - 1" y0 gy] ly0 nt(7) unfolding y1_def by simp_all
  have lya: "length ya = nt" by (simp add: ya_def f1(1))
  have y2e: "y2 = ya[nt - 1 := ya ! (nt - 1) - (\<Sum>j<nt - 2. mv (h lu ! j) (ya ! j))]"
    unfolding y2_def using fold_accum' [of "nt - 1" ya "nt - 2" "\<lambda>j a. mv (h lu ! j) a"] lya nt(4,6)
    by simp
  have yaj: "ya ! j = y1 ! j" if "j < nt - 1" for j using that by (simp add: ya_def)
  have y2j: "y2 ! j = y1 ! j" if "j < nt - 1" for j using that yaj [OF that] by (simp add: y2e)
  have y2_0: "y2 ! 0 = rhs ! 0"
    using y2j [of 0] f1(2) nt by (simp add: y0_def)
  have y2_i: "y2 ! i = rhs ! i - mv (l lu ! (i - 1)) (y2 ! (i - 1))" if "1 \<le> i \<and> i < nt - 1" for i
  proof -
    from that have "i < nt - 1" "i - 1 < nt - 1" by auto
    then show ?thesis using f1(3) that y2j by (simp add: gy_def)
  qed
  have y2_l: "y2 ! (nt - 1) = rhs ! (nt - 1) - mv (l lu ! (nt - 2)) (y2 ! (nt - 2))
      - (\<Sum>j<nt - 2. mv (h lu ! j) (y2 ! j))"
  proof -
    have "(\<Sum>j<nt - 2. mv (h lu ! j) (ya ! j)) = (\<Sum>j<nt - 2. mv (h lu ! j) (y2 ! j))"
      by (rule sum.cong) (simp_all add: yaj y2j)
    moreover have "ya ! (nt - 1) = rhs ! (nt - 1) - mv (l lu ! (nt - 2)) (y2 ! (nt - 2))"
      using f1(1) nt(4) y2j [OF nt(10)] by (simp add: ya_def)
    ultimately show ?thesis using lya nt(4) by (simp add: y2e)
  qed
  have lx0: "length x0 = nt" by (simp add: x0_def)
  have lxa: "length xa = nt" by (simp add: xa_def lx0)
  have b1: "length x1 = nt" "\<forall>i. i < 0 \<or> nt - 2 \<le> i \<longrightarrow> x1 ! i = xa ! i"
    "\<forall>i. 0 \<le> i \<and> i < nt - 2 \<longrightarrow> x1 ! i = gx i (x1 ! (i + 1)) (x1 ! (nt - 1))"
    using fold_backward [of "nt - 2" "nt - 1" xa 0 gx] lxa nt(4,6) unfolding x1_def by simp_all
  have x_l: "x1 ! (nt - 1) = mv (dinv lu ! (nt - 1)) (y2 ! (nt - 1))"
    using b1(2) nt lx0 by (simp add: xa_def x0_def)
  have x_2: "x1 ! (nt - 2) = mv (dinv lu ! (nt - 2)) (y2 ! (nt - 2) - mv (u lu ! (nt - 2)) (x1 ! (nt - 1)))"
  proof -
    have "x1 ! (nt - 2) = xa ! (nt - 2)" using b1(2) by simp
    moreover have "x0 ! (nt - 1) = x1 ! (nt - 1)" using x_l nt(4) by (simp add: x0_def)
    ultimately show ?thesis using lx0 nt(5) by (simp add: xa_def)
  qed
  have x_i: "\<forall>i<nt - 2. x1 ! i = mv (dinv lu ! i) (y2 ! i - mv (u lu ! i) (x1 ! (i + 1)) - mv (v lu ! i) (x1 ! (nt - 1)))"
    using b1(3) by (simp add: gx_def)
  show ?thesis
    unfolding nt_def [symmetric]
    using res b1(1) y2_0 y2_i y2_l x_l x_2 x_i by blast
qed

lemma getQLU_1: "getNt phi = 1 \<Longrightarrow> getQLU hfm phi = Inr (nt1QLU hfm phi)"
  by (simp add: getQLU_def)

lemma getQLU_2: "getNt phi = 2 \<Longrightarrow> getQLU hfm phi = Inr (nt2QLU hfm phi)"
  by (simp add: getQLU_def)

lemma getQLU_general: "3 \<le> getNt phi \<Longrightarrow> getQLU hfm phi = generalQLU hfm phi"
  by (simp add: getQLU_def)

lemma generalQLU_spec_consistent:
  assumes "3 \<le> getNt phi" "generalQLU_spec hfm phi lu"
  shows "isConsistent lu" "length (dinv lu) = getNt phi"
  using assms by (auto simp add: generalQLU_spec_def isConsistent_def Let_def)

lemma solveQ_rows_1:
  assumes nt: "getNt phi = 1" and r: "getNt rhs = getNt phi"
    and piv: "\<forall>D \<in> set (pivotBlocks hfm phi). invert D * D = 1 \<and> D * invert D = 1"
  shows "\<exists>x. solveQ hfm phi rhs = Inr x \<and> stmv (getNt phi) (Q hfm phi) x = rhs"
proof -
  define D where "D = cplx (P hfm) + Tplus hfm 0 phi + Tminus hfm 0 phi"
  have pb: "pivotBlocks hfm phi = [D]"
    using nt by (simp add: pivotBlocks_def getQLU_1 D_def)
  have inv: "D * invert D = 1" using piv pb by simp
  have lu: "nt1QLU hfm phi = \<lparr>dinv = [invert D], u = [], l = [], v = [], h = []\<rparr>"
    by (simp add: nt1QLU_def Let_def D_def)
  obtain r0 where rhs: "rhs = [r0]"
    using r nt by (cases rhs) (simp_all add: getNt_def)
  have s: "solveQ hfm phi rhs = Inr [mv (invert D) r0]"
    using nt by (simp add: solveQ_def getQLU_1 bindR_def lu solveQ_lu_def isConsistent_def
        getNt_def rhs spacevec_def)
  have "stmv (getNt phi) (Q hfm phi) [mv (invert D) r0] ! 0
      = mv (cplx (P hfm)) (mv (invert D) r0) + mv (Tplus hfm 0 phi) (mv (invert D) r0)
        + mv (Tminus hfm 0 phi) (mv (invert D) r0)"
    using stmv_Q [of 0 phi hfm "[mv (invert D) r0]"] nt by simp
  also have "\<dots> = mv D (mv (invert D) r0)"
    by (simp add: D_def mv_add_left)
  also have "\<dots> = r0"
    using inv by (simp add: mv_mult [symmetric])
  finally have "stmv (getNt phi) (Q hfm phi) [mv (invert D) r0] ! 0 = r0" .
  then have "stmv (getNt phi) (Q hfm phi) [mv (invert D) r0] = rhs"
    using nt by (intro nth_equalityI) (simp_all add: rhs)
  with s show ?thesis by blast
qed

lemma solveQ_rows_2:
  assumes nt: "getNt phi = 2" and r: "getNt rhs = getNt phi"
    and piv: "\<forall>D \<in> set (pivotBlocks hfm phi). invert D * D = 1 \<and> D * invert D = 1"
  shows "\<exists>x. solveQ hfm phi rhs = Inr x \<and> stmv (getNt phi) (Q hfm phi) x = rhs"
proof -
  define p where "p = cplx (P hfm)"
  define l0 where "l0 = (Tplus hfm 1 phi + Tminus hfm 1 phi) * invert p"
  define u0 where "u0 = Tplus hfm 0 phi + Tminus hfm 0 phi"
  define D1 where "D1 = p - l0 * u0"
  define lu where "lu = nt2QLU hfm phi"
  have lu: "dinv lu = [invert p, invert D1]" "u lu = [u0]" "l lu = [l0]" "v lu = []" "h lu = []"
    by (simp_all add: lu_def nt2QLU_def Let_def p_def l0_def u0_def D1_def)
  have pb: "pivotBlocks hfm phi = [p, D1]"
  proof -
    have "[0..<2] = [0, 1]" by (simp add: upt_rec)
    then show ?thesis
      using nt lu by (simp add: pivotBlocks_def getQLU_2 Let_def lu_def [symmetric] p_def D1_def)
  qed
  have inv: "invert p * p = 1" "p * invert p = 1" "D1 * invert D1 = 1"
    using piv pb by simp_all
  have cons: "isConsistent lu" by (simp add: isConsistent_def lu)
  have len: "length (dinv lu) = 2" by (simp add: lu)
  obtain x y where xy: "solveQ_lu lu rhs = Inr x" "length x = 2"
     "y ! 0 = rhs ! 0"
     "y ! 1 = rhs ! 1 - mv l0 (y ! 0)"
     "x ! 1 = mv (invert D1) (y ! 1)"
     "x ! 0 = mv (invert p) (y ! 0 - mv u0 (x ! 1))"
    using solveQ_lu_char [OF cons, of rhs] r nt unfolding len by (auto simp add: lu)
  have s: "solveQ hfm phi rhs = Inr x"
    using nt xy(1) by (simp add: solveQ_def getQLU_2 bindR_def lu_def)
  have px0: "mv p (x ! 0) = y ! 0 - mv u0 (x ! 1)"
    unfolding xy(6) using inv(2) by (simp add: mv_mult [symmetric])
  have dx1: "mv D1 (x ! 1) = y ! 1"
    unfolding xy(5) using inv(3) by (simp add: mv_mult [symmetric])
  have lp: "l0 * p = Tplus hfm 1 phi + Tminus hfm 1 phi"
    unfolding l0_def using inv(1) by (simp add: mult.assoc)
  have row0: "stmv (getNt phi) (Q hfm phi) x ! 0 = rhs ! 0"
    using stmv_Q [of 0 phi hfm x] nt px0 xy(3)
    by (simp add: p_def [symmetric] u0_def mv_add_left algebra_simps)
  have "mv p (x ! 1) = mv D1 (x ! 1) + mv l0 (mv u0 (x ! 1))"
    by (simp add: D1_def mv_simps)
  moreover have "mv (Tplus hfm 1 phi + Tminus hfm 1 phi) (x ! 0) = mv l0 (mv p (x ! 0))"
    using lp by (simp add: mv_mult [symmetric])
  ultimately have row1: "stmv (getNt phi) (Q hfm phi) x ! 1 = rhs ! 1"
    using stmv_Q [of 1 phi hfm x] nt dx1 px0 xy(4)
    by (simp add: p_def [symmetric] mv_simps algebra_simps)
  have "stmv (getNt phi) (Q hfm phi) x ! i = rhs ! i" if "i < 2" for i
  proof -
    from that have "i = 0 \<or> i = 1" by auto
    then show ?thesis using row0 row1 by auto
  qed
  then have "stmv (getNt phi) (Q hfm phi) x = rhs"
    using nt r by (intro nth_equalityI) (simp_all add: getNt_def)
  with s show ?thesis by blast
qed

lemma solveQ_rows_general:
  fixes hfm :: "('n::len) HubbardFermiMatrix"
  assumes nt3: "3 \<le> getNt phi" and r: "getNt rhs = getNt phi"
    and piv: "\<forall>D \<in> set (pivotBlocks hfm phi). invert D * D = 1 \<and> D * invert D = 1"
  shows "\<exists>x. solveQ hfm phi rhs = Inr x \<and> stmv (getNt phi) (Q hfm phi) x = rhs"
proof -
  define nt where "nt = getNt phi"
  define p where "p = cplx (P hfm)"
  obtain lu where g: "generalQLU hfm phi = Inr lu" and sp: "generalQLU_spec hfm phi lu"
    using generalQLU_meets_spec [OF nt3] by blast
  have gq: "getQLU hfm phi = Inr lu" using g nt3 by (simp add: getQLU_general)
  have n: "3 \<le> nt" "nt \<noteq> 1" "2 \<le> nt" using nt3 by (simp_all add: nt_def)
  define D where "D = (\<lambda>i. if i = 0 then p
                        else if i < nt - 1 then p - l lu ! (i - 1) * u lu ! (i - 1)
                        else p - l lu ! (nt - 2) * u lu ! (nt - 2) - (\<Sum>j < nt - 2. h lu ! j * v lu ! j))"
  have pb: "pivotBlocks hfm phi = map D [0..<nt]"
    using n(2) by (simp add: pivotBlocks_def gq Let_def nt_def [symmetric] p_def [symmetric] D_def)
  have Dinv: "invert (D i) * D i = 1 \<and> D i * invert (D i) = 1" if "i < nt" for i
  proof -
    have "D i \<in> set (pivotBlocks hfm phi)" using that by (simp add: pb)
    then show ?thesis using piv by blast
  qed
  have spec:
      "length (dinv lu) = nt" "length (u lu) = nt - 1" "length (l lu) = nt - 1"
      "length (v lu) = nt - 2" "length (h lu) = nt - 2"
      "dinv lu ! 0 = invert p"
      "l lu ! 0 = Tplus hfm 1 phi * dinv lu ! 0"
      "v lu ! 0 = Tplus hfm 0 phi"
      "h lu ! 0 = Tminus hfm (nt - 1) phi * dinv lu ! 0"
      "\<forall>i < nt - 2. u lu ! i = Tminus hfm i phi"
      "\<forall>i \<in> {1..<nt - 2}.
            dinv lu ! i = invert (p - l lu ! (i - 1) * u lu ! (i - 1))
            \<and> l lu ! i = Tplus hfm (i + 1) phi * dinv lu ! i
            \<and> h lu ! i = - h lu ! (i - 1) * u lu ! (i - 1) * dinv lu ! i
            \<and> v lu ! i = - l lu ! (i - 1) * v lu ! (i - 1)"
      "dinv lu ! (nt - 2) = invert (p - l lu ! (nt - 3) * u lu ! (nt - 3))"
      "u lu ! (nt - 2) = Tminus hfm (nt - 2) phi - l lu ! (nt - 3) * v lu ! (nt - 3)"
      "l lu ! (nt - 2) = (Tplus hfm (nt - 1) phi - h lu ! (nt - 3) * u lu ! (nt - 3)) * dinv lu ! (nt - 2)"
      "dinv lu ! (nt - 1)
          = invert (p - l lu ! (nt - 2) * u lu ! (nt - 2) - (\<Sum>j < nt - 2. h lu ! j * v lu ! j))"
    using sp unfolding generalQLU_spec_def Let_def nt_def [symmetric] p_def [symmetric] by blast+
  have di: "dinv lu ! i = invert (D i)" if i: "i < nt" for i
  proof -
    consider "i = 0" | "1 \<le> i" "i < nt - 2" | "i = nt - 2" | "i = nt - 1"
      using i by linarith
    then show ?thesis
    proof cases
      case 1
      then show ?thesis using spec(6) by (simp add: D_def)
    next
      case 2
      then have "i \<in> {1..<nt - 2}" "i \<noteq> 0" "i < nt - 1" by auto
      then show ?thesis using spec(11) by (simp add: D_def)
    next
      case 3
      then have "i \<noteq> 0" "i < nt - 1" "i - 1 = nt - 3" using n by auto
      then show ?thesis using spec(12) 3 by (simp add: D_def)
    next
      case 4
      then have "i \<noteq> 0" "\<not> i < nt - 1" using n by auto
      then show ?thesis using spec(15) 4 by (simp add: D_def)
    qed
  qed
  have cons: "isConsistent lu" and len: "length (dinv lu) = getNt phi"
    using generalQLU_spec_consistent [OF nt3 sp] by simp_all
  obtain x y where xy: "solveQ_lu lu rhs = Inr x" "length x = nt"
     "y ! 0 = rhs ! 0"
     "\<forall>i. 1 \<le> i \<and> i < nt - 1 \<longrightarrow> y ! i = rhs ! i - mv (l lu ! (i - 1)) (y ! (i - 1))"
     "y ! (nt - 1) = rhs ! (nt - 1) - mv (l lu ! (nt - 2)) (y ! (nt - 2)) - (\<Sum>j<nt - 2. mv (h lu ! j) (y ! j))"
     "x ! (nt - 1) = mv (dinv lu ! (nt - 1)) (y ! (nt - 1))"
     "x ! (nt - 2) = mv (dinv lu ! (nt - 2)) (y ! (nt - 2) - mv (u lu ! (nt - 2)) (x ! (nt - 1)))"
     "\<forall>i<nt - 2. x ! i = mv (dinv lu ! i) (y ! i - mv (u lu ! i) (x ! (i + 1)) - mv (v lu ! i) (x ! (nt - 1)))"
    using solveQ_lu_char [OF cons, of rhs] r n(3) unfolding len nt_def [symmetric] by blast
  have s: "solveQ hfm phi rhs = Inr x"
    using xy(1) by (simp add: solveQ_def gq bindR_def)
  have row: "mv p (x ! t) + mv (Tplus hfm t phi) (x ! ((t + nt - 1) mod nt))
      + mv (Tminus hfm t phi) (x ! ((t + 1) mod nt)) = rhs ! t" if t: "t < nt" for t
  proof (rule blockLU_rows [where D = D and di = "\<lambda>i. dinv lu ! i" and uu = "\<lambda>i. u lu ! i"
        and ll = "\<lambda>i. l lu ! i" and vv = "\<lambda>i. v lu ! i" and hh = "\<lambda>i. h lu ! i"
        and y = "\<lambda>i. y ! i" and x = "\<lambda>i. x ! i" and rhs = "\<lambda>i. rhs ! i"
        and Tp = "\<lambda>t. Tplus hfm t phi" and Tm = "\<lambda>t. Tminus hfm t phi" and nt = nt])
    show "3 \<le> nt" by (rule n(1))
    show "dinv lu ! i * D i = 1" if "i < nt" for i using di [OF that] Dinv [OF that] by simp
    show "D i * dinv lu ! i = 1" if "i < nt" for i using di [OF that] Dinv [OF that] by simp
    show "D 0 = p" by (simp add: D_def)
    show "D i = p - l lu ! (i - 1) * u lu ! (i - 1)" if "1 \<le> i" "i \<le> nt - 2" for i
      using that n by (simp add: D_def)
    show "D (nt - 1) = p - l lu ! (nt - 2) * u lu ! (nt - 2) - (\<Sum>j<nt - 2. h lu ! j * v lu ! j)"
      using n by (simp add: D_def)
    show "u lu ! i = Tminus hfm i phi" if "i < nt - 2" for i using spec(10) that by simp
    show "u lu ! (nt - 2) = Tminus hfm (nt - 2) phi - l lu ! (nt - 3) * v lu ! (nt - 3)" by (rule spec(13))
    show "l lu ! i = Tplus hfm (i + 1) phi * dinv lu ! i" if "i < nt - 2" for i
    proof (cases "i = 0")
      case True
      then show ?thesis using spec(7) by simp
    next
      case False
      with that have "i \<in> {1..<nt - 2}" by simp
      then show ?thesis using spec(11) by simp
    qed
    show "l lu ! (nt - 2) = (Tplus hfm (nt - 1) phi - h lu ! (nt - 3) * u lu ! (nt - 3)) * dinv lu ! (nt - 2)"
      by (rule spec(14))
    show "v lu ! 0 = Tplus hfm 0 phi" by (rule spec(8))
    show "v lu ! i = - l lu ! (i - 1) * v lu ! (i - 1)" if "1 \<le> i" "i < nt - 2" for i
    proof -
      from that have "i \<in> {1..<nt - 2}" by simp
      then show ?thesis using spec(11) by simp
    qed
    show "h lu ! 0 = Tminus hfm (nt - 1) phi * dinv lu ! 0" by (rule spec(9))
    show "h lu ! i = - h lu ! (i - 1) * u lu ! (i - 1) * dinv lu ! i" if "1 \<le> i" "i < nt - 2" for i
    proof -
      from that have "i \<in> {1..<nt - 2}" by simp
      then show ?thesis using spec(11) by simp
    qed
    show "y ! 0 = rhs ! 0" by (rule xy(3))
    show "y ! i = rhs ! i - mv (l lu ! (i - 1)) (y ! (i - 1))" if "1 \<le> i" "i < nt - 1" for i
      using xy(4) that by simp
    show "y ! (nt - 1) = rhs ! (nt - 1) - mv (l lu ! (nt - 2)) (y ! (nt - 2)) - (\<Sum>j<nt - 2. mv (h lu ! j) (y ! j))"
      by (rule xy(5))
    show "x ! (nt - 1) = mv (dinv lu ! (nt - 1)) (y ! (nt - 1))" by (rule xy(6))
    show "x ! (nt - 2) = mv (dinv lu ! (nt - 2)) (y ! (nt - 2) - mv (u lu ! (nt - 2)) (x ! (nt - 1)))"
      by (rule xy(7))
    show "x ! i = mv (dinv lu ! i) (y ! i - mv (u lu ! i) (x ! (i + 1)) - mv (v lu ! i) (x ! (nt - 1)))"
      if "i < nt - 2" for i using xy(8) that by simp
    show "t < nt" by (rule t)
  qed
  have "stmv (getNt phi) (Q hfm phi) x ! t = rhs ! t" if "t < nt" for t
    using stmv_Q [of t phi hfm x] row [OF that] that by (simp add: nt_def p_def)
  then have "stmv (getNt phi) (Q hfm phi) x = rhs"
    using r by (intro nth_equalityI) (simp_all add: getNt_def nt_def)
  with s show ?thesis by blast
qed

text \<open>
  C3. Whenever every pivot block of the decomposition is inverted by \<open>invert\<close>,
  \<open>solveQ\<close> returns a vector \<open>x\<close> with \<open>Q x = rhs\<close>, for every number
  \<open>Nt \<ge> 1\<close> of time slices and every right-hand side of \<open>Nt\<close> slices.
\<close>

theorem solveQ_solves_Q:
  assumes "1 \<le> getNt phi" and "getNt rhs = getNt phi"
    and "\<forall>D \<in> set (pivotBlocks hfm phi). invert D * D = 1 \<and> D * invert D = 1"
  shows "\<exists>x. solveQ hfm phi rhs = Inr x \<and> stmv (getNt phi) (Q hfm phi) x = rhs"
proof -
  consider "getNt phi = 1" | "getNt phi = 2" | "3 \<le> getNt phi"
    using assms(1) by linarith
  then show ?thesis
    using solveQ_rows_1 [OF _ assms(2,3)] solveQ_rows_2 [OF _ assms(2,3)]
      solveQ_rows_general [OF _ assms(2,3)]
    by cases blast+
qed

lemma upt_3: "[0..<3] = [0, 1, 2]"
  by (simp add: upt_rec)

lemma Tblocks_1x1:
  "t \<le> 3 \<Longrightarrow> Tplus (hfm1x1 0) t [0, 0, 0] = (if t = 0 then 1 else - 1)"
  "t < 3 \<Longrightarrow> Tminus (hfm1x1 0) t [0, 0, 0] = (if t = 2 then 1 else - 1)"
  "cplx (P (hfm1x1 0)) = smult 2 1"
proof -
  show "cplx (P (hfm1x1 0)) = smult 2 1"
    by (simp add: P_def hfm1x1_def newHubbardFermiMatrix_def entry1_simps)
  show "Tplus (hfm1x1 0) t [0, 0, 0] = (if t = 0 then 1 else - 1)" if "t \<le> 3"
  proof -
    from that have "t = 0 \<or> t = 1 \<or> t = 2 \<or> t = 3" by auto
    then show ?thesis
      by (auto simp add: Tplus_def hfm1x1_def newHubbardFermiMatrix_def getNt_def spacevec_def
          entry1_simps)
  qed
  show "Tminus (hfm1x1 0) t [0, 0, 0] = (if t = 2 then 1 else - 1)" if "t < 3"
  proof -
    from that have "t = 0 \<or> t = 1 \<or> t = 2" by auto
    then show ?thesis
      by (auto simp add: Tminus_def hfm1x1_def newHubbardFermiMatrix_def getNt_def spacevec_def
          entry1_simps)
  qed
qed

lemma getQLU_1x1:
  "getQLU (hfm1x1 0) [0, 0, 0]
     = Inr \<lparr>dinv = [smult (1 / 2) 1, smult (2 / 3) 1, smult (3 / 4) 1],
            u = [- 1, smult (- 1 / 2) 1], l = [smult (- 1 / 2) 1, smult (- 1 / 3) 1],
            v = [1], h = [smult (1 / 2) 1]\<rparr>"
  by (simp add: getQLU_def generalQLU_def getNt_def Let_def Tblocks_1x1 entry1_simps)

lemma pivotBlocks_1x1:
  "pivotBlocks (hfm1x1 0) [0, 0, 0] = [smult 2 1, smult (3 / 2) 1, smult (4 / 3) 1]"
  by (simp add: pivotBlocks_def getQLU_1x1 getNt_def Let_def upt_3 Tblocks_1x1 entry1_simps)

theorem solveQ_solves_Q_witness:
  "\<exists>x. solveQ (hfm1x1 0) [0, 0, 0] [diagonal 1, 0, 0] = Inr x
       \<and> stmv 3 (Q (hfm1x1 0) [0, 0, 0]) x = [diagonal 1, 0, 0]"
proof -
  have a: "1 \<le> getNt [0 :: (complex, 1) vec, 0, 0]" by (simp add: getNt_def)
  have b: "getNt [diagonal (1 :: (complex, 1) mat), 0, 0] = getNt [0 :: (complex, 1) vec, 0, 0]"
    by (simp add: getNt_def)
  have c: "\<forall>D \<in> set (pivotBlocks (hfm1x1 0) [0, 0, 0]). invert D * D = 1 \<and> D * invert D = 1"
    by (simp add: pivotBlocks_1x1 entry1_simps)
  have d: "getNt [0 :: (complex, 1) vec, 0, 0] = 3" by (simp add: getNt_def)
  show ?thesis
    using solveQ_solves_Q [OF a b c] unfolding d .
qed

text \<open>
  C10. For every field of \<open>Nt \<ge> 1\<close> time slices \<open>getQLU\<close> returns a decomposition
  that \<open>isConsistent\<close> accepts: \<open>dinv\<close> has \<open>Nt\<close> blocks, \<open>u\<close> and \<open>l\<close> have
  \<open>Nt - 1\<close>, for \<open>Nt > 1\<close> \<open>v\<close> and \<open>h\<close> have \<open>Nt - 2\<close>, and for \<open>Nt = 1\<close>
  all of \<open>u\<close>, \<open>l\<close>, \<open>v\<close>, \<open>h\<close> are empty.
\<close>

theorem getQLU_isConsistent:
  assumes "1 \<le> getNt phi"
  shows "\<exists>lu. getQLU hfm phi = Inr lu \<and> isConsistent lu
      \<and> length (dinv lu) = getNt phi
      \<and> length (u lu) = getNt phi - 1 \<and> length (l lu) = getNt phi - 1
      \<and> (1 < getNt phi \<longrightarrow> length (v lu) = getNt phi - 2 \<and> length (h lu) = getNt phi - 2)
      \<and> (getNt phi = 1 \<longrightarrow> u lu = [] \<and> l lu = [] \<and> v lu = [] \<and> h lu = [])"
proof -
  consider "getNt phi = 1" | "getNt phi = 2" | "3 \<le> getNt phi"
    using assms by linarith
  then show ?thesis
  proof cases
    case 1
    then show ?thesis
      by (simp add: getQLU_1 nt1QLU_def Let_def isConsistent_def)
  next
    case 2
    then show ?thesis
      by (simp add: getQLU_2 nt2QLU_def Let_def isConsistent_def)
  next
    case 3
    obtain lu where g: "generalQLU hfm phi = Inr lu" and sp: "generalQLU_spec hfm phi lu"
      using generalQLU_meets_spec [OF 3] by blast
    have "isConsistent lu" using generalQLU_spec_consistent(1) [OF 3 sp] .
    moreover have "length (dinv lu) = getNt phi" "length (u lu) = getNt phi - 1"
      "length (l lu) = getNt phi - 1" "length (v lu) = getNt phi - 2" "length (h lu) = getNt phi - 2"
      using sp by (simp_all add: generalQLU_spec_def Let_def)
    ultimately show ?thesis using g 3 by (simp add: getQLU_general)
  qed
qed

theorem getQLU_isConsistent_witness:
  "\<exists>lu. getQLU (hfm1x1 0) [0, 0, 0] = Inr lu \<and> isConsistent lu
      \<and> length (dinv lu) = 3 \<and> length (u lu) = 2 \<and> length (l lu) = 2
      \<and> length (v lu) = 1 \<and> length (h lu) = 1"
proof -
  have a: "1 \<le> getNt [0 :: (complex, 1) vec, 0, 0]" by (simp add: getNt_def)
  show ?thesis
    using getQLU_isConsistent [OF a, of "hfm1x1 0"]
    by (simp add: getNt_def numeral_3_eq_3 numeral_2_eq_2)
qed

text \<open>
  C2. The claim: for \<open>Nt \<ge> 2\<close>, \<open>reconstruct (getQLU hfm phi)\<close> is \<open>Q hfm phi\<close>.
  With two time slices \<open>getQLU\<close> returns the consistent decomposition of \<open>nt2QLU\<close>,
  whose \<open>v\<close> is empty; \<open>reconstruct\<close> passes its guards (\<open>nt < 2\<close>, \<open>isConsistent\<close>)
  and reads \<open>v[0]\<close> for the block \<open>(0, nt-1)\<close>: an access out of range, no matrix results.
\<close>

theorem reconstruct_two_slices:
  assumes "getNt phi = 2"
  shows "\<exists>lu. getQLU hfm phi = Inr lu \<and> isConsistent lu \<and> length (dinv lu) = 2
       \<and> v lu = [] \<and> reconstruct lu = Inl OutOfRange"
  using assms
  by (simp add: getQLU_2 nt2QLU_def Let_def isConsistent_def reconstruct_def recon_row0_def
      bindR_def elem_def)

theorem reconstruct_two_slices_witness:
  "\<exists>lu. getQLU (hfm1x1 0) [0, 0] = Inr lu \<and> isConsistent lu \<and> reconstruct lu = Inl OutOfRange"
proof -
  have a: "getNt [0 :: (complex, 1) vec, 0] = 2" by (simp add: getNt_def)
  show ?thesis
    using reconstruct_two_slices [OF a, of "hfm1x1 0"] by blast
qed

section \<open>The value of logdetM\<close>


lemma Kinv_fst_again: "fst (Kinv (snd (Kinv hfm species)) species) = fst (Kinv hfm species)"
  by (simp add: Kinv_def Let_def split: option.splits)













section \<open>The identity block\<close>



















section \<open>The action without hopping\<close>










lemma one_plus_one_mat: "1 + (1 :: (complex, 1) mat) = 2"
  by simp




end
